theory Spec2Isabelle
  imports Main "HOL-Library.Word"
begin

section \<open>The K&R-style heap manager with boundary tags (mm\_kr\_heap.c)\<close>

text \<open>
  The allocator works on a segment of \<open>Header\<close>-sized units. A pointer to a \<open>Header\<close>
  is modelled by the index of its unit, counted from the low end of the segment, and the
  null pointer by \<open>None\<close>. The two fields \<open>s.ptr\<close> and \<open>s.size\<close> of the units are
  kept as two maps from unit indices. Values of type \<open>size_t\<close> are natural numbers, and
  every \<open>size_t\<close> operation that can wrap is written with \<open>mod 2 ^ 64\<close>. Unit
  indices are natural numbers too: a pointer below the low end of the segment, which the
  allocator computes on a corrupt memory only, is not represented, and the subtraction
  stops at unit 0.
  The bytes that clients, \<open>memset\<close> and \<open>memcpy\<close> see are kept in a separate
  byte map addressed by the byte offset from the low end of the segment. What the
  allocator writes into a header field is not carried over to that byte map; what
  \<open>memset\<close> and \<open>memcpy\<close> write is carried over to the header fields of the units that
  they cover.
\<close>

subsection \<open>Platform and segment provider\<close>

record env =
  hsize :: nat      \<comment> \<open>\<open>sizeof(Header)\<close>\<close>
  pagesize :: nat   \<comment> \<open>\<open>mem_pagesize()\<close>\<close>
  maxheap :: nat    \<comment> \<open>capacity of the segment in bytes\<close>
  heap_lo :: nat    \<comment> \<open>\<open>mem_heap_lo()\<close>, the byte address of unit 0\<close>

record state =
  brk :: nat                      \<comment> \<open>bytes currently in the segment\<close>
  s_ptr :: "nat \<Rightarrow> nat option"    \<comment> \<open>field \<open>s.ptr\<close> of every unit\<close>
  s_size :: "nat \<Rightarrow> nat"         \<comment> \<open>field \<open>s.size\<close> of every unit\<close>
  freep :: "nat option"           \<comment> \<open>start of the free list\<close>
  errno :: nat
  bytes :: "nat \<Rightarrow> 8 word"       \<comment> \<open>contents, by byte offset from the low end\<close>

datatype failure = AssertionFailed | NullDeref | OutOfSegment

type_synonym 'a result = "(failure \<times> state) + 'a"

definition ENOMEM :: nat where
  "ENOMEM = 12"

definition SIZE_LIMIT :: nat where
  "SIZE_LIMIT = 2 ^ 64"

definition byte_addr :: "env \<Rightarrow> nat \<Rightarrow> nat" where
  "byte_addr e i = heap_lo e + i * hsize e"

text \<open>
  Modelled from the spec: the segment provider (memlib) is not part of the sources.
  Section 6 of the specification gives its contract: \<open>heap_lo\<close> is the inclusive low
  watermark, \<open>heap_hi\<close> the last valid byte, \<open>heapsize\<close> is high - low + 1,
  \<open>sbrk(n)\<close> extends the segment by \<open>n\<close> bytes and returns the start of the added
  region, or fails; \<open>init\<close> and \<open>reset\<close> leave the segment empty. The provider fails
  a request that would pass the capacity \<open>maxheap\<close>.
\<close>

definition mem_heap_lo :: "env \<Rightarrow> nat" where
  "mem_heap_lo e = heap_lo e"

definition mem_heapsize :: "state \<Rightarrow> nat" where
  "mem_heapsize st = brk st"

definition mem_heap_hi :: "env \<Rightarrow> state \<Rightarrow> nat" where
  "mem_heap_hi e st = heap_lo e + brk st - 1"

definition mem_pagesize :: "env \<Rightarrow> nat" where
  "mem_pagesize e = pagesize e"

definition mem_sbrk :: "env \<Rightarrow> state \<Rightarrow> nat \<Rightarrow> (nat \<times> state) option" where
  "mem_sbrk e st incr =
     (if brk st + incr > maxheap e then None
      else Some (brk st, st\<lparr>brk := brk st + incr\<rparr>))"

definition mem_init :: "state \<Rightarrow> state" where
  "mem_init st = st\<lparr>brk := 0\<rparr>"

definition mem_reset_brk :: "state \<Rightarrow> state" where
  "mem_reset_brk st = st\<lparr>brk := 0\<rparr>"

definition mem_deinit :: "state \<Rightarrow> state" where
  "mem_deinit st = st\<lparr>brk := 0\<rparr>"

subsection \<open>Life cycle\<close>

definition mm_init :: "state \<Rightarrow> state" where
  "mm_init st = (mem_init st)\<lparr>freep := None\<rparr>"

definition mm_reset :: "state \<Rightarrow> state" where
  "mm_reset st = (mem_reset_brk st)\<lparr>freep := None\<rparr>"

definition mm_deinit :: "state \<Rightarrow> state" where
  "mm_deinit st = (mem_deinit st)\<lparr>freep := None\<rparr>"

subsection \<open>Units, bytes and block navigation\<close>

definition mm_units :: "env \<Rightarrow> nat \<Rightarrow> nat" where
  "mm_units e nbytes =
     (((nbytes + 2 * hsize e - 1) mod SIZE_LIMIT) div hsize e + 1) mod SIZE_LIMIT"

definition mm_bytes :: "env \<Rightarrow> nat \<Rightarrow> nat" where
  "mm_bytes e nunits = (nunits * hsize e) mod SIZE_LIMIT"

definition mm_payload :: "nat \<Rightarrow> nat" where
  "mm_payload bp = bp + 1"

definition mm_block :: "nat \<Rightarrow> nat" where
  "mm_block ap = ap - 1"

definition mm_footer :: "state \<Rightarrow> nat \<Rightarrow> nat" where
  "mm_footer st hp = hp + s_size st hp - 1"

definition mm_header :: "state \<Rightarrow> nat \<Rightarrow> nat" where
  "mm_header st fp = fp + 1 - s_size st fp"

definition mm_size :: "state \<Rightarrow> nat \<Rightarrow> nat" where
  "mm_size st bp = s_size st bp"

definition mm_setSize :: "state \<Rightarrow> nat \<Rightarrow> nat \<Rightarrow> state" where
  "mm_setSize st bp n =
     (let st1 = st\<lparr>s_size := (s_size st)(bp := n)\<rparr>
      in st1\<lparr>s_size := (s_size st1)(mm_footer st1 bp := n)\<rparr>)"

definition mm_next :: "state \<Rightarrow> nat \<Rightarrow> nat option" where
  "mm_next st bp = s_ptr st bp"

definition mm_setNext :: "state \<Rightarrow> nat \<Rightarrow> nat option \<Rightarrow> state" where
  "mm_setNext st bp nxt = st\<lparr>s_ptr := (s_ptr st)(bp := nxt)\<rparr>"

definition mm_prev :: "state \<Rightarrow> nat \<Rightarrow> nat option" where
  "mm_prev st bp = s_ptr st (mm_footer st bp)"

definition mm_setPrev :: "state \<Rightarrow> nat \<Rightarrow> nat option \<Rightarrow> state" where
  "mm_setPrev st bp prv = st\<lparr>s_ptr := (s_ptr st)(mm_footer st bp := prv)\<rparr>"

definition mm_before :: "env \<Rightarrow> state \<Rightarrow> nat \<Rightarrow> nat option" where
  "mm_before e st bp =
     (if byte_addr e bp \<le> mem_heap_lo e then None
      else Some (mm_header st (bp - 1)))"

definition mm_after :: "env \<Rightarrow> state \<Rightarrow> nat \<Rightarrow> nat option" where
  "mm_after e st bp =
     (if byte_addr e (bp + s_size st bp) > mem_heap_hi e st then None
      else Some (bp + s_size st bp))"

subsection \<open>The free list\<close>

definition mm_unlink :: "state \<Rightarrow> nat \<Rightarrow> state result" where
  "mm_unlink st bp =
     (if mm_next st bp = Some bp then
        Inr ((mm_setPrev (mm_setNext st bp None) bp None)\<lparr>freep := None\<rparr>)
      else
        (case mm_prev st bp of
           None \<Rightarrow> Inl (NullDeref, st)
         | Some prv \<Rightarrow>
            (let st1 = mm_setNext st prv (mm_next st bp) in
             (case mm_next st bp of
                None \<Rightarrow> Inl (NullDeref, st1)
              | Some nxt \<Rightarrow>
                 Inr (mm_setPrev (mm_setNext (mm_setPrev st1 nxt (Some prv)) bp None)
                        bp None)))))"

definition mm_link :: "state \<Rightarrow> nat \<Rightarrow> nat option \<Rightarrow> state result" where
  "mm_link st bp pos =
     (case pos of
        None \<Rightarrow> Inr ((mm_setPrev (mm_setNext st bp (Some bp)) bp (Some bp))\<lparr>freep := Some bp\<rparr>)
      | Some q \<Rightarrow>
         (case mm_prev st q of
            None \<Rightarrow> Inl (NullDeref, st)
          | Some prv \<Rightarrow>
             Inr (mm_setPrev
                   (mm_setNext (mm_setPrev (mm_setNext st prv (Some bp)) bp (Some prv))
                      bp (Some q))
                   q (Some bp))))"

subsection \<open>Release and coalescing\<close>

text \<open>
  The two coalescing steps of \<open>mm_free\<close> (lines 350--362 and 364--380 of the source) are
  given as two functions; the second one also returns the block that \<open>bp\<close> points to
  afterwards.
\<close>

definition mm_free_upper :: "env \<Rightarrow> state \<Rightarrow> nat \<Rightarrow> state result" where
  "mm_free_upper e st bp =
     (case mm_after e st bp of
        None \<Rightarrow> Inr st
      | Some pnext \<Rightarrow>
         (if s_ptr st pnext = None then Inr st
          else
            (let st1 = (if freep st = Some pnext then st\<lparr>freep := mm_prev st pnext\<rparr> else st)
             in (case mm_unlink st1 pnext of
                   Inl f \<Rightarrow> Inl f
                 | Inr st2 \<Rightarrow>
                    (let st3 = mm_setSize st2 bp
                                 ((mm_size st2 bp + mm_size st2 pnext) mod SIZE_LIMIT)
                     in Inr (mm_setPrev (mm_setNext st3 bp None) bp None))))))"

definition mm_free_lower :: "env \<Rightarrow> state \<Rightarrow> nat \<Rightarrow> (state \<times> nat) result" where
  "mm_free_lower e st bp =
     (case mm_before e st bp of
        None \<Rightarrow> Inr (st, bp)
      | Some p \<Rightarrow>
         (if s_ptr st p = None then Inr (st, bp)
          else
            (let st1 = (if freep st = Some p then st\<lparr>freep := mm_prev st p\<rparr> else st)
             in (case mm_unlink st1 p of
                   Inl f \<Rightarrow> Inl f
                 | Inr st2 \<Rightarrow>
                    (let st3 = mm_setSize st2 p
                                 ((mm_size st2 p + mm_size st2 bp) mod SIZE_LIMIT);
                         st4 = mm_setPrev (mm_setNext st3 bp None) bp None;
                         st5 = mm_setPrev (mm_setNext st4 p None) p None
                     in Inr (st5, p))))))"

definition mm_free :: "env \<Rightarrow> state \<Rightarrow> nat option \<Rightarrow> state result" where
  "mm_free e st ap =
     (case ap of
        None \<Rightarrow> Inr st
      | Some a \<Rightarrow>
         (let bp = mm_block a in
          if \<not> (s_size st bp > 0 \<and> mm_bytes e (s_size st bp) \<le> mem_heapsize st)
          then Inl (AssertionFailed, st)
          else if freep st = None
          then Inr ((mm_setPrev (mm_setNext st bp (Some bp)) bp (Some bp))\<lparr>freep := Some bp\<rparr>)
          else
            (case mm_free_upper e st bp of
               Inl f \<Rightarrow> Inl f
             | Inr st1 \<Rightarrow>
                (case mm_free_lower e st1 bp of
                   Inl f \<Rightarrow> Inl f
                 | Inr (st2, bp') \<Rightarrow>
                    (case mm_link st2 bp' (freep st2) of
                       Inl f \<Rightarrow> Inl f
                     | Inr st3 \<Rightarrow> Inr (st3\<lparr>freep := mm_prev st3 bp'\<rparr>))))))"

subsection \<open>Growth\<close>

text \<open>
  \<open>morecore\<close> casts the byte pointer returned by \<open>mem_sbrk\<close> to a \<open>Header\<close> pointer;
  the unit index of that pointer is the byte offset divided by \<open>sizeof(Header)\<close>.
\<close>

definition morecore :: "env \<Rightarrow> state \<Rightarrow> nat \<Rightarrow> (nat option \<times> state) result" where
  "morecore e st nu0 =
     (let nalloc = mem_pagesize e div hsize e;
          nu = (if nu0 < nalloc then nalloc else nu0);
          nbytes = mm_bytes e nu
      in (case mem_sbrk e st nbytes of
            None \<Rightarrow> Inr (None, st)
          | Some (p, st1) \<Rightarrow>
             (let bp = p div hsize e;
                  st2 = mm_setSize st1 bp nu
              in (case mm_free e st2 (Some (bp + 1)) of
                    Inl f \<Rightarrow> Inl f
                  | Inr st3 \<Rightarrow> Inr (freep st3, st3)))))"

subsection \<open>Allocation\<close>

text \<open>
  \<open>mm_malloc_found\<close> is the body of the traversal for a block that is large enough
  (lines 283--306): the block is taken whole, or split and its upper end taken.
\<close>

definition mm_malloc_found :: "state \<Rightarrow> nat \<Rightarrow> nat \<Rightarrow> (nat option \<times> state) result" where
  "mm_malloc_found st p nunits =
     (if s_size st p = nunits \<or> s_size st p = (nunits + 1) mod SIZE_LIMIT then
        (let st1 = (if freep st = Some p then st\<lparr>freep := mm_prev st p\<rparr> else st)
         in (case mm_unlink st1 p of
               Inl f \<Rightarrow> Inl f
             | Inr st2 \<Rightarrow> Inr (Some (mm_payload p), st2)))
      else
        (let prv = mm_prev st p;
             nxt = mm_next st p;
             st1 = mm_setSize st p (mm_size st p - nunits);
             st2 = mm_setPrev st1 p prv;
             st3 = mm_setNext st2 p nxt;
             p' = p + mm_size st3 p;
             st4 = mm_setSize st3 p' nunits;
             st5 = mm_setNext st4 p' None;
             st6 = mm_setPrev st5 p' None
         in Inr (Some (mm_payload p'), st6\<lparr>freep := prv\<rparr>)))"

text \<open>
  The traversal of the circular list. It need not terminate on an arbitrary memory, so
  it is a partial function: \<open>None\<close> stands for a traversal that never returns.
\<close>

partial_function (option) malloc_loop ::
  "env \<Rightarrow> state \<Rightarrow> nat \<Rightarrow> nat \<Rightarrow> (nat option \<times> state) result option" where
  "malloc_loop e st p nunits =
     (if s_size st p \<ge> nunits then Some (mm_malloc_found st p nunits)
      else if Some p = freep st then
        (case morecore e st nunits of
           Inl f \<Rightarrow> Some (Inl f)
         | Inr (None, st1) \<Rightarrow> Some (Inr (None, st1\<lparr>errno := ENOMEM\<rparr>))
         | Inr (Some q, st1) \<Rightarrow>
            (let st2 = st1\<lparr>freep := mm_prev st1 q\<rparr>
             in (case mm_next st2 q of
                   None \<Rightarrow> Some (Inl (NullDeref, st2))
                 | Some r \<Rightarrow> malloc_loop e st2 r nunits)))
      else
        (case mm_next st p of
           None \<Rightarrow> Some (Inl (NullDeref, st))
         | Some r \<Rightarrow> malloc_loop e st r nunits))"

definition malloc_start ::
  "env \<Rightarrow> state \<Rightarrow> nat \<Rightarrow> (nat option \<times> state) result option" where
  "malloc_start e st nunits =
     (case freep st of
        None \<Rightarrow> Some (Inl (NullDeref, st))
      | Some f \<Rightarrow>
         (case mm_next st f of
            None \<Rightarrow> Some (Inl (NullDeref, st))
          | Some p \<Rightarrow> malloc_loop e st p nunits))"

definition mm_malloc :: "env \<Rightarrow> state \<Rightarrow> nat \<Rightarrow> (nat option \<times> state) result option" where
  "mm_malloc e st nbytes =
     (let nunits = mm_units e nbytes in
      if freep st = None then
        (case morecore e st nunits of
           Inl f \<Rightarrow> Some (Inl f)
         | Inr (None, st1) \<Rightarrow> Some (Inr (None, st1\<lparr>errno := ENOMEM\<rparr>))
         | Inr (Some p, st1) \<Rightarrow> malloc_start e (st1\<lparr>freep := Some p\<rparr>) nunits)
      else malloc_start e st nunits)"

subsection \<open>Free memory\<close>

partial_function (option) getfree_loop :: "env \<Rightarrow> state \<Rightarrow> nat \<Rightarrow> nat \<Rightarrow> nat option" where
  "getfree_loop e st tmp res =
     (case s_ptr st tmp of
        None \<Rightarrow> Some (mm_bytes e res)
      | Some q \<Rightarrow>
         (if q > tmp then getfree_loop e st q ((res + s_size st q) mod SIZE_LIMIT)
          else Some (mm_bytes e res)))"

definition mm_getfree :: "env \<Rightarrow> state \<Rightarrow> nat option" where
  "mm_getfree e st =
     (case freep st of
        None \<Rightarrow> Some 0
      | Some tmp \<Rightarrow> getfree_loop e st tmp (s_size st tmp))"

subsection \<open>Reallocation and zeroed allocation\<close>

text \<open>
  \<open>memcpy\<close> and \<open>memset\<close> of the C library are called with payload pointers, which
  are unit indices here. They write \<open>n\<close> bytes upwards from the first byte of the unit
  \<open>dst\<close>. The segment ends at the byte offset \<open>brk\<close>: a call that reads or writes a byte
  at or past that offset leaves the memory of the segment, and is the failure
  \<open>OutOfSegment\<close>; a call for 0 bytes touches nothing. \<open>memcpy\<close> copies the bytes
  as they are before the call; \<open>mm_realloc\<close> calls it on two different blocks.

  The bytes written are also the bytes of the header fields of the units covered. With
  the \<open>size_t\<close> and the pointers of 64 bits that the model fixes, \<open>s.ptr\<close> is held
  in the bytes 0 to 7 of a unit and \<open>s.size\<close> in the bytes 8 to 15, least significant
  byte first. \<open>covered\<close> is the number of bytes of the unit \<open>u\<close> that are written, always
  its first ones; \<open>field_write v w k\<close> is the value of a field that held \<open>v\<close> after its
  first \<open>k\<close> bytes are replaced by those of \<open>w\<close>, and \<open>fill_value c\<close> the value of a
  field whose 8 bytes all hold \<open>c\<close>. \<open>ptr_addr\<close> is the address that a
  link holds and \<open>addr_ptr\<close> the link that an address is read as; an address that is not
  the address of a unit is read as the unit that contains it, and an address below the
  low end of the segment as unit 0.
\<close>

definition covered :: "env \<Rightarrow> nat \<Rightarrow> nat \<Rightarrow> nat \<Rightarrow> nat" where
  "covered e dst n u =
     (if u < dst then 0 else min (hsize e) (dst * hsize e + n - u * hsize e))"

definition field_write :: "nat \<Rightarrow> nat \<Rightarrow> nat \<Rightarrow> nat" where
  "field_write v w k =
     (if 8 \<le> k then w mod SIZE_LIMIT
      else (v mod SIZE_LIMIT) div 256 ^ k * 256 ^ k + w mod 256 ^ k)"

definition fill_value :: "8 word \<Rightarrow> nat" where
  "fill_value c = unat c * ((2 ^ 64 - 1) div 255)"

definition ptr_addr :: "env \<Rightarrow> nat option \<Rightarrow> nat" where
  "ptr_addr e x = (case x of None \<Rightarrow> 0 | Some i \<Rightarrow> byte_addr e i)"

definition addr_ptr :: "env \<Rightarrow> nat \<Rightarrow> nat option" where
  "addr_ptr e a = (if a = 0 then None else Some ((a - heap_lo e) div hsize e))"

definition memcpy :: "env \<Rightarrow> state \<Rightarrow> nat \<Rightarrow> nat \<Rightarrow> nat \<Rightarrow> state result" where
  "memcpy e st dst src n =
     (if 0 < n \<and> (brk st < dst * hsize e + n \<or> brk st < src * hsize e + n)
      then Inl (OutOfSegment, st)
      else Inr (st\<lparr>
        bytes := (\<lambda>a. if dst * hsize e \<le> a \<and> a < dst * hsize e + n
                       then bytes st (src * hsize e + (a - dst * hsize e))
                       else bytes st a),
        s_ptr := (\<lambda>u. let k = covered e dst n u in
                       if k = 0 then s_ptr st u
                       else if 8 \<le> k then s_ptr st (src + (u - dst))
                       else addr_ptr e (field_write (ptr_addr e (s_ptr st u))
                                          (ptr_addr e (s_ptr st (src + (u - dst)))) k)),
        s_size := (\<lambda>u. let k = covered e dst n u - 8 in
                       if k = 0 then s_size st u
                       else field_write (s_size st u) (s_size st (src + (u - dst))) k)\<rparr>))"

definition memset :: "env \<Rightarrow> state \<Rightarrow> nat \<Rightarrow> 8 word \<Rightarrow> nat \<Rightarrow> state result" where
  "memset e st dst c n =
     (if 0 < n \<and> brk st < dst * hsize e + n then Inl (OutOfSegment, st)
      else Inr (st\<lparr>
        bytes := (\<lambda>a. if dst * hsize e \<le> a \<and> a < dst * hsize e + n then c
                       else bytes st a),
        s_ptr := (\<lambda>u. let k = covered e dst n u in
                       if k = 0 then s_ptr st u
                       else addr_ptr e (field_write (ptr_addr e (s_ptr st u)) (fill_value c) k)),
        s_size := (\<lambda>u. let k = covered e dst n u - 8 in
                       if k = 0 then s_size st u
                       else field_write (s_size st u) (fill_value c) k)\<rparr>))"

text \<open>
  The two versions of the macro \<open>mul_of\<close>: the compiler builtin, and the generic
  expression of line 53. Both store the wrapped product.
\<close>

definition mul_of :: "nat \<Rightarrow> nat \<Rightarrow> bool \<times> nat" where
  "mul_of a b = (a * b \<ge> SIZE_LIMIT, (a * b) mod SIZE_LIMIT)"

definition mul_of_generic :: "nat \<Rightarrow> nat \<Rightarrow> bool \<times> nat" where
  "mul_of_generic a b =
     (let r = (a * b) mod SIZE_LIMIT
      in ((r \<noteq> 0 \<or> r = 0) \<and> (a \<noteq> 0 \<and> b > r div a), r))"

definition mm_realloc ::
  "env \<Rightarrow> state \<Rightarrow> nat option \<Rightarrow> nat \<Rightarrow> (nat option \<times> state) result option" where
  "mm_realloc e st ap newsize =
     (case ap of
        None \<Rightarrow> mm_malloc e st newsize
      | Some a \<Rightarrow>
         (let bp = mm_block a in
          if newsize > 0 \<and> s_size st bp \<ge> mm_units e newsize then Some (Inr (Some a, st))
          else
            (case mm_malloc e st newsize of
               None \<Rightarrow> None
             | Some (Inl f) \<Rightarrow> Some (Inl f)
             | Some (Inr (None, st1)) \<Rightarrow> Some (Inr (None, st1))
             | Some (Inr (Some newap, st1)) \<Rightarrow>
                (let oldsize = mm_bytes e ((s_size st1 bp + SIZE_LIMIT - 1) mod SIZE_LIMIT)
                 in (case memcpy e st1 newap a (if oldsize < newsize then oldsize else newsize) of
                       Inl f \<Rightarrow> Some (Inl f)
                     | Inr st2 \<Rightarrow>
                        (case mm_free e st2 (Some a) of
                           Inl f \<Rightarrow> Some (Inl f)
                         | Inr st3 \<Rightarrow> Some (Inr (Some newap, st3))))))))"

definition mm_calloc ::
  "env \<Rightarrow> state \<Rightarrow> nat \<Rightarrow> nat \<Rightarrow> (nat option \<times> state) result option" where
  "mm_calloc e st count sz =
     (case mul_of count sz of
        (True, nbytes) \<Rightarrow> Some (Inr (None, st))
      | (False, nbytes) \<Rightarrow>
         (case mm_malloc e st nbytes of
            None \<Rightarrow> None
          | Some (Inl f) \<Rightarrow> Some (Inl f)
          | Some (Inr (None, st1)) \<Rightarrow> Some (Inr (None, st1))
          | Some (Inr (Some p, st1)) \<Rightarrow>
             (case memset e st1 p 0 nbytes of
                Inl f \<Rightarrow> Some (Inl f)
              | Inr st2 \<Rightarrow> Some (Inr (Some p, st2)))))"

subsection \<open>Client call sequences\<close>

text \<open>
  A client performs a sequence of calls. \<open>run\<close> keeps the set of payload pointers that
  are live (returned by an allocation and not yet released). Between two calls the client
  may write into the payload of a live block: \<open>Store u x n\<close> overwrites the unit \<open>u\<close>,
  which lies after the header and before the footer of a live block, so that the unit read
  as a header holds the link \<open>x\<close> and the size \<open>n\<close>. A release of a pointer that is not
  live, a write outside the live payloads and a request for more bytes than the segment can
  ever hold, is a misuse by the client; an assertion failure, a null dereference and a
  traversal that does not return are failures of the allocator.
\<close>

datatype call = Allocate nat | Release "nat option" | Store nat "nat option" nat

datatype outcome = Done "nat set" state | Misuse | Failed

fun run :: "env \<Rightarrow> call list \<Rightarrow> nat set \<Rightarrow> state \<Rightarrow> outcome" where
  "run e [] L st = Done L st"
| "run e (Allocate n # cs) L st =
     (if n > maxheap e then Misuse
      else (case mm_malloc e st n of
              Some (Inr (Some p, st')) \<Rightarrow> run e cs (insert p L) st'
            | Some (Inr (None, st')) \<Rightarrow> run e cs L st'
            | _ \<Rightarrow> Failed))"
| "run e (Release None # cs) L st =
     (case mm_free e st None of Inr st' \<Rightarrow> run e cs L st' | Inl _ \<Rightarrow> Failed)"
| "run e (Release (Some p) # cs) L st =
     (if p \<notin> L then Misuse
      else (case mm_free e st (Some p) of
              Inr st' \<Rightarrow> run e cs (L - {p}) st'
            | Inl _ \<Rightarrow> Failed))"
| "run e (Store u x n # cs) L st =
     (if \<exists>p\<in>L. p \<le> u \<and> u + 1 < mm_block p + mm_size st (mm_block p)
      then run e cs L (st\<lparr>s_ptr := (s_ptr st)(u := x), s_size := (s_size st)(u := n)\<rparr>)
      else Misuse)"

subsection \<open>A concrete platform and concrete memories\<close>

text \<open>
  On x86-64 (System V) \<open>sizeof(Header)\<close> is 32, the size of \<open>max_align_t\<close>; pages have
  4096 bytes. \<open>one_page_env\<close> is the same platform with a segment of one page only.
  \<open>one_alloc_state\<close> is the memory after the first \<open>mm_malloc(1)\<close>, \<open>released_state\<close>
  the memory after the release of that block, and \<open>corrupt_state\<close> is
  \<open>one_alloc_state\<close> with the size field of the allocated block overwritten.
\<close>

definition x86_64_env :: env where
  "x86_64_env = \<lparr>hsize = 32, pagesize = 4096, maxheap = 20971520, heap_lo = 65536\<rparr>"

definition one_page_env :: env where
  "one_page_env = \<lparr>hsize = 32, pagesize = 4096, maxheap = 4096, heap_lo = 65536\<rparr>"

definition empty_state :: state where
  "empty_state =
     \<lparr>brk = 0, s_ptr = (\<lambda>_. None), s_size = (\<lambda>_. 0), freep = None, errno = 0,
      bytes = (\<lambda>_. 0)\<rparr>"

definition one_alloc_state :: state where
  "one_alloc_state =
     \<lparr>brk = 4096,
      s_ptr = (\<lambda>_. None)(0 := Some 0, 124 := Some 0),
      s_size = (\<lambda>_. 0)(0 := 125, 124 := 125, 125 := 3, 127 := 3),
      freep = Some 0, errno = 0, bytes = (\<lambda>_. 0)\<rparr>"

definition released_state :: state where
  "released_state =
     \<lparr>brk = 4096,
      s_ptr = (\<lambda>_. None)(0 := Some 0, 127 := Some 0),
      s_size = (\<lambda>_. 0)(0 := 128, 124 := 125, 125 := 3, 127 := 128),
      freep = Some 0, errno = 0, bytes = (\<lambda>_. 0)\<rparr>"

definition corrupt_state :: state where
  "corrupt_state = one_alloc_state\<lparr>s_size := (s_size one_alloc_state)(125 := 2 ^ 59)\<rparr>"

text \<open>
  \<open>two_unit_state\<close> is \<open>one_alloc_state\<close> after a block of 2 units is split off the free
  block, and \<open>first_two_unit_state\<close> the memory after a first allocation that takes a
  block of 2 units.
\<close>

definition two_unit_state :: state where
  "two_unit_state =
     \<lparr>brk = 4096,
      s_ptr = (\<lambda>_. None)(0 := Some 0, 122 := Some 0),
      s_size = (\<lambda>_. 0)(0 := 123, 122 := 123, 123 := 2, 124 := 2, 125 := 3, 127 := 3),
      freep = Some 0, errno = 0, bytes = (\<lambda>_. 0)\<rparr>"

definition first_two_unit_state :: state where
  "first_two_unit_state =
     \<lparr>brk = 4096,
      s_ptr = (\<lambda>_. None)(0 := Some 0, 125 := Some 0),
      s_size = (\<lambda>_. 0)(0 := 126, 125 := 126, 126 := 2, 127 := 2),
      freep = Some 0, errno = 0, bytes = (\<lambda>_. 0)\<rparr>"



definition two_free_state :: state where
  "two_free_state =
     \<lparr>brk = 4096,
      s_ptr = (\<lambda>_. None)(0 := Some 125, 121 := Some 125, 125 := Some 0, 127 := Some 0),
      s_size = (\<lambda>_. 0)(0 := 122, 121 := 122, 122 := 3, 124 := 3, 125 := 3, 127 := 3),
      freep = Some 0, errno = 0, bytes = (\<lambda>_. 0)\<rparr>"

definition near_fit_state :: state where
  "near_fit_state =
     \<lparr>brk = 4096,
      s_ptr = (\<lambda>_. None)(0 := Some 0, 121 := Some 0),
      s_size = (\<lambda>_. 0)(0 := 122, 121 := 122, 122 := 3, 124 := 3, 125 := 3, 127 := 3),
      freep = Some 0, errno = 0, bytes = (\<lambda>_. 0)\<rparr>"

subsection \<open>Blocks, the free list and the platform in the statements\<close>

text \<open>
  \<open>valid_env\<close> is what the proofs ask of the platform: a header has a size, and sizes up
  to the capacity of the segment, with three more headers, and the page size fit
  \<open>size_t\<close>. \<open>heap_units\<close> is the number of units in the segment, and \<open>grow_units\<close> the
  number of units that \<open>morecore\<close> asks for (lines 467--472).

  \<open>block_list\<close> finds the blocks of the segment as a reader of the memory does: the
  first block starts at the low end, the next one where the size in its header says, up to
  the high end. A block is on the free list if it is reached from \<open>freep\<close> by following
  the \<open>next\<close> links.
\<close>

definition valid_env :: "env \<Rightarrow> bool" where
  "valid_env e \<longleftrightarrow>
     0 < hsize e \<and> maxheap e + 3 * hsize e \<le> SIZE_LIMIT \<and> pagesize e < SIZE_LIMIT"

definition heap_units :: "env \<Rightarrow> state \<Rightarrow> nat" where
  "heap_units e st = brk st div hsize e"

definition grow_units :: "env \<Rightarrow> nat \<Rightarrow> nat" where
  "grow_units e nunits =
     (if nunits < pagesize e div hsize e then pagesize e div hsize e else nunits)"

fun block_list :: "(nat \<Rightarrow> nat) \<Rightarrow> nat \<Rightarrow> nat list \<Rightarrow> nat \<Rightarrow> bool" where
  "block_list sz a [] hi \<longleftrightarrow> a = hi"
| "block_list sz a (b # bs) hi \<longleftrightarrow> b = a \<and> a < hi \<and> block_list sz (a + sz a) bs hi"

definition on_free_list :: "state \<Rightarrow> nat \<Rightarrow> bool" where
  "on_free_list st b \<longleftrightarrow>
     (\<exists>f. freep st = Some f \<and> (f, b) \<in> {(x, y). mm_next st x = Some y}\<^sup>*)"

definition free_list_blocks :: "state \<Rightarrow> nat set" where
  "free_list_blocks st = {b. on_free_list st b}"

subsection \<open>The heap invariant\<close>

text \<open>
  The blocks of the segment are described by the list \<open>B\<close> of their header units, in
  address order: \<open>chain\<close> says that they tile the units from \<open>a\<close> up to \<open>hi\<close>, that
  each has at least two units and that header and footer agree on the size; \<open>sep\<close> is
  the consequence that distinct blocks do not overlap. \<open>ring\<close> says that the free
  blocks \<open>Fs\<close> form one circular doubly linked list: \<open>next\<close> and \<open>prev\<close> stay in
  \<open>Fs\<close> and invert each other, and every free block reaches every other one.
  \<open>heap_inv\<close> is the invariant of the allocator, with the free blocks \<open>Fs\<close> and the
  allocated blocks \<open>A\<close>, whose headers hold a null link; a block in neither set is one
  that is being released, and nothing is asked of its links. No free block is followed by
  a free block. \<open>heap_ok\<close> is the invariant between two calls: every block is free or
  allocated, and the allocated blocks are those of the live payload pointers.
  \<open>malloc_post\<close> is what a call of \<open>mm_malloc\<close> establishes.
\<close>

fun chain :: "(nat \<Rightarrow> nat) \<Rightarrow> nat \<Rightarrow> nat list \<Rightarrow> nat \<Rightarrow> bool" where
  "chain sz a [] hi \<longleftrightarrow> a = hi"
| "chain sz a (b # bs) hi \<longleftrightarrow>
     b = a \<and> 2 \<le> sz b \<and> sz (b + sz b - 1) = sz b \<and> chain sz (b + sz b) bs hi"

definition sep :: "(nat \<Rightarrow> nat) \<Rightarrow> nat set \<Rightarrow> bool" where
  "sep sz S \<longleftrightarrow>
     (\<forall>b\<in>S. 2 \<le> sz b \<and> (\<forall>c\<in>S. b \<noteq> c \<longrightarrow> b + sz b \<le> c \<or> c + sz c \<le> b))"

definition nextrel :: "(nat \<Rightarrow> nat option) \<Rightarrow> nat set \<Rightarrow> (nat \<times> nat) set" where
  "nextrel ptr Fs = {(x, y). x \<in> Fs \<and> ptr x = Some y}"

definition ring :: "(nat \<Rightarrow> nat option) \<Rightarrow> (nat \<Rightarrow> nat) \<Rightarrow> nat set \<Rightarrow> bool" where
  "ring ptr sz Fs \<longleftrightarrow>
     (\<forall>b\<in>Fs. \<exists>y\<in>Fs. ptr b = Some y \<and> ptr (y + sz y - 1) = Some b) \<and>
     (\<forall>b\<in>Fs. \<exists>x\<in>Fs. ptr (b + sz b - 1) = Some x \<and> ptr x = Some b) \<and>
     (\<forall>b\<in>Fs. \<forall>c\<in>Fs. (b, c) \<in> (nextrel ptr Fs)\<^sup>*)"

definition heap_inv :: "env \<Rightarrow> state \<Rightarrow> nat list \<Rightarrow> nat set \<Rightarrow> nat set \<Rightarrow> bool" where
  "heap_inv e st B Fs A \<longleftrightarrow>
     brk st = heap_units e st * hsize e \<and> brk st \<le> maxheap e \<and>
     chain (s_size st) 0 B (heap_units e st) \<and>
     Fs \<subseteq> set B \<and> A \<subseteq> set B \<and> Fs \<inter> A = {} \<and>
     (\<forall>b\<in>A. s_ptr st b = None) \<and>
     ring (s_ptr st) (s_size st) Fs \<and>
     (case freep st of None \<Rightarrow> Fs = {} | Some f \<Rightarrow> f \<in> Fs) \<and>
     (\<forall>b\<in>Fs. b + s_size st b \<notin> Fs)"

definition heap_ok :: "env \<Rightarrow> state \<Rightarrow> nat set \<Rightarrow> bool" where
  "heap_ok e st L \<longleftrightarrow>
     (\<exists>B Fs A. heap_inv e st B Fs A \<and> set B = Fs \<union> A \<and> L = mm_payload ` A)"

definition malloc_post ::
  "env \<Rightarrow> state \<Rightarrow> nat set \<Rightarrow> nat set \<Rightarrow> nat \<Rightarrow> nat option \<Rightarrow> state \<Rightarrow> bool" where
  "malloc_post e st Fs A nunits r st' \<longleftrightarrow>
     (r = None \<and> st' = st\<lparr>errno := ENOMEM\<rparr> \<and>
      maxheap e < brk st + grow_units e nunits * hsize e \<and>
      (\<forall>f. freep st = Some f \<longrightarrow> s_size st f < nunits)) \<or>
     (\<exists>b' B' Fs'. r = Some (b' + 1) \<and> heap_inv e st' B' Fs' (insert b' A) \<and>
        set B' = Fs' \<union> insert b' A \<and> b' \<notin> A \<and> nunits \<le> s_size st' b' \<and>
        s_size st' b' \<le> nunits + 1 \<and> errno st' = errno st \<and> bytes st' = bytes st \<and>
        ((\<exists>b\<in>Fs. nunits \<le> s_size st b) \<or>
         brk st + grow_units e nunits * hsize e \<le> maxheap e))"

section \<open>Properties\<close>

subsection \<open>Evaluation and frame lemmas\<close>

lemmas mm_defs = mm_malloc_def malloc_start_def malloc_loop.simps mm_malloc_found_def
  morecore_def mm_free_def mm_free_upper_def mm_free_lower_def mm_link_def mm_unlink_def
  mm_setPrev_def mm_setNext_def mm_prev_def mm_next_def mm_setSize_def mm_size_def
  mm_footer_def mm_header_def mm_before_def mm_after_def mm_block_def mm_payload_def
  mm_bytes_def mm_units_def mem_sbrk_def mem_heap_lo_def mem_heap_hi_def mem_heapsize_def
  mem_pagesize_def byte_addr_def SIZE_LIMIT_def ENOMEM_def Let_def

lemma one_alloc_state_reached:
  "mm_malloc x86_64_env (mm_init empty_state) 1 = Some (Inr (Some 126, one_alloc_state))"
  by (simp add: mm_defs x86_64_env_def empty_state_def one_alloc_state_def mm_init_def
      mem_init_def fun_eq_iff)

lemma setNext_simps [simp]:
  "s_ptr (mm_setNext st a x) = (s_ptr st)(a := x)"
  "s_size (mm_setNext st a x) = s_size st"
  "freep (mm_setNext st a x) = freep st"
  "brk (mm_setNext st a x) = brk st"
  "errno (mm_setNext st a x) = errno st"
  "bytes (mm_setNext st a x) = bytes st"
  by (simp_all add: mm_setNext_def)

lemma setPrev_simps [simp]:
  "s_ptr (mm_setPrev st a x) = (s_ptr st)(a + s_size st a - 1 := x)"
  "s_size (mm_setPrev st a x) = s_size st"
  "freep (mm_setPrev st a x) = freep st"
  "brk (mm_setPrev st a x) = brk st"
  "errno (mm_setPrev st a x) = errno st"
  "bytes (mm_setPrev st a x) = bytes st"
  by (simp_all add: mm_setPrev_def mm_footer_def)

lemma setSize_simps [simp]:
  "s_size (mm_setSize st a n) = (s_size st)(a := n, a + n - 1 := n)"
  "s_ptr (mm_setSize st a n) = s_ptr st"
  "freep (mm_setSize st a n) = freep st"
  "brk (mm_setSize st a n) = brk st"
  "errno (mm_setSize st a n) = errno st"
  "bytes (mm_setSize st a n) = bytes st"
  by (simp_all add: mm_setSize_def mm_footer_def Let_def)

lemma covered_zero [simp]: "covered e dst 0 u = 0"
  by (simp add: covered_def)

lemma memcpy_zero: "memcpy e st dst src 0 = Inr st"
proof -
  have "(\<lambda>a. if dst * hsize e \<le> a \<and> a < dst * hsize e
             then bytes st (src * hsize e + (a - dst * hsize e)) else bytes st a) = bytes st"
    by (rule ext) auto
  then show ?thesis by (simp add: memcpy_def)
qed


subsection \<open>The sizing formula\<close>

lemma mm_units_in_range:
  assumes H: "0 < hsize e" and b: "b + 2 * hsize e < SIZE_LIMIT"
  shows "mm_units e b = (b + 2 * hsize e - 1) div hsize e + 1"
    and "2 \<le> mm_units e b"
    and "b \<le> (mm_units e b - 2) * hsize e"
proof -
  define q where "q = (b + 2 * hsize e - 1) div hsize e"
  define r where "r = (b + 2 * hsize e - 1) mod hsize e"
  have qr: "b + 2 * hsize e - 1 = q * hsize e + r"
    by (simp add: q_def r_def)
  have r: "r < hsize e"
    using H by (simp add: r_def)
  have "q \<le> b + 2 * hsize e - 1"
    unfolding q_def by (rule div_le_dividend)
  with b H have small: "q + 1 < SIZE_LIMIT" by linarith
  have nowrap: "(b + 2 * hsize e - 1) mod SIZE_LIMIT = b + 2 * hsize e - 1"
    using b by simp
  show u: "mm_units e b = (b + 2 * hsize e - 1) div hsize e + 1"
    unfolding mm_units_def nowrap using small by (simp add: q_def)
  have "hsize e \<le> b + 2 * hsize e - 1" using H by linarith
  then have q1: "1 \<le> q"
    unfolding q_def using H by (simp add: div_greater_zero_iff Suc_le_eq)
  with u show "2 \<le> mm_units e b" by (simp add: q_def)
  from q1 obtain k where k: "q = Suc k" by (cases q) auto
  have "mm_units e b - 2 = k" using u k by (simp add: q_def)
  moreover have "b \<le> k * hsize e"
    using qr r H unfolding k by simp
  ultimately show "b \<le> (mm_units e b - 2) * hsize e" by simp
qed

text \<open>
  Claim C4. The unit count reserved for \<open>b\<close> bytes should be
  \<open>(b + 2 * sizeof(Header) - 1) / sizeof(Header) + 1\<close>, at least 2, with room for \<open>b\<close>
  bytes of payload between header and footer. The sum is computed in \<open>size_t\<close>: for the
  largest request it wraps, and \<open>mm_units\<close> answers 2 units, which hold no payload at all;
  for a request 62 bytes smaller it answers a single unit.
\<close>

theorem mm_units_wraps:
  "mm_units x86_64_env (2 ^ 64 - 1) = 2 \<and>
   \<not> (2 ^ 64 - 1 \<le> (mm_units x86_64_env (2 ^ 64 - 1) - 2) * hsize x86_64_env) \<and>
   mm_units x86_64_env (2 ^ 64 - 63) = 1"
  by (simp add: mm_units_def x86_64_env_def SIZE_LIMIT_def)

subsection \<open>Free memory\<close>

text \<open>
  Claim C5. \<open>mm_getfree\<close> should return the bytes of all blocks on the free list. Its
  scan stops at the first block whose successor does not lie at a higher address. After
  three allocations of one byte and the release of the first and the third, the free list
  holds the blocks at units 125 (3 units) and 0 (122 units) and starts at 125: the scan
  counts the 3 units of the first block only.
\<close>

theorem mm_getfree_misses_blocks:
  "case run x86_64_env
          [Allocate 1, Allocate 1, Allocate 1, Release (Some 126), Release (Some 120)]
          {} (mm_init empty_state) of
     Done L st \<Rightarrow>
       L = {123} \<and> freep st = Some 125 \<and>
       mm_next st 125 = Some 0 \<and> mm_next st 0 = Some 125 \<and>
       mm_size st 125 = 3 \<and> mm_size st 0 = 122 \<and>
       mm_getfree x86_64_env st = Some (mm_bytes x86_64_env 3) \<and>
       mm_bytes x86_64_env 3 < mm_bytes x86_64_env (3 + 122)
   | _ \<Rightarrow> False"
  by (simp add: mm_defs x86_64_env_def empty_state_def mm_init_def mem_init_def
      mm_getfree_def getfree_loop.simps insert_Diff_if)

subsection \<open>The assertion of \<open>mm_free\<close>\<close>

lemma mm_free_assert_fails:
  "s_size st (mm_block a) = 0 \<or> mem_heapsize st < mm_bytes e (s_size st (mm_block a)) \<Longrightarrow>
   mm_free e st (Some a) = Inl (AssertionFailed, st)"
  by (auto simp: mm_free_def Let_def)

text \<open>
  The assertion stops \<open>mm_free\<close>, with the state as it was, for a size field of zero and
  for a size field whose \<open>mm_bytes\<close> exceeds the heap size (\<open>mm_free_assert_fails\<close>);
  it passes for every live pointer (\<open>heap_ok_free\<close> below).
\<close>

text \<open>
  Claim C8. A block header whose size in bytes exceeds the heap size should stop
  \<open>mm_free\<close> at its assertion. The assertion compares \<open>mm_bytes\<close> of the size, a
  \<open>size_t\<close> product: for a size field of \<open>2 ^ 59\<close> units of 32 bytes the product wraps
  to 0, the assertion passes and \<open>mm_free\<close> goes on to relink the block.
\<close>

theorem mm_free_assert_wraps:
  "mem_heapsize corrupt_state < s_size corrupt_state (mm_block 126) * hsize x86_64_env \<and>
   mm_bytes x86_64_env (s_size corrupt_state (mm_block 126)) = 0 \<and>
   (case mm_free x86_64_env corrupt_state (Some 126) of Inr st \<Rightarrow> True | Inl f \<Rightarrow> False)"
  by (simp add: mm_defs x86_64_env_def corrupt_state_def one_alloc_state_def)

subsection \<open>Reallocation\<close>

text \<open>
  Claim C6, amended. For a non-null pointer and a requested size greater than zero, if
  the block already has at least the units that the size needs, \<open>mm_realloc\<close> returns
  the pointer and leaves the state as it is.
\<close>

theorem mm_realloc_keeps_block:
  "0 < newsize \<Longrightarrow> mm_units e newsize \<le> s_size st (mm_block a) \<Longrightarrow>
   mm_realloc e st (Some a) newsize = Some (Inr (Some a, st))"
  by (simp add: mm_realloc_def)

theorem mm_realloc_keeps_block_witness:
  "0 < (1::nat) \<and> mm_units x86_64_env 1 \<le> s_size one_alloc_state (mm_block 126) \<and>
   mm_realloc x86_64_env one_alloc_state (Some 126) 1 = Some (Inr (Some 126, one_alloc_state))"
  using mm_realloc_keeps_block [of 1 x86_64_env one_alloc_state 126]
  by (simp add: mm_units_def mm_block_def x86_64_env_def one_alloc_state_def SIZE_LIMIT_def)

lemma realloc_zero_eval:
  "case mm_realloc x86_64_env one_alloc_state (Some 126) 0 of
     Some (Inr (Some q, st)) \<Rightarrow> q = 124 \<and> freep st = Some 0 \<and> s_ptr st 125 = Some 0
   | _ \<Rightarrow> False"
  by (simp add: mm_realloc_def memcpy_zero mm_defs x86_64_env_def one_alloc_state_def)

text \<open>
  For a requested size of zero the claim fails: the block of 3 units at unit 125 has the
  2 units that a request of 0 bytes needs, and \<open>mm_realloc\<close> allocates a new block and
  releases the old one.
\<close>

theorem mm_realloc_zero_counterexample:
  "mm_units x86_64_env 0 \<le> s_size one_alloc_state (mm_block 126) \<and>
   mm_realloc x86_64_env one_alloc_state (Some 126) 0 \<noteq>
     Some (Inr (Some 126, one_alloc_state))"
proof -
  have "mm_units x86_64_env 0 \<le> s_size one_alloc_state (mm_block 126)"
    by (simp add: mm_units_def mm_block_def x86_64_env_def one_alloc_state_def SIZE_LIMIT_def)
  moreover have "mm_realloc x86_64_env one_alloc_state (Some 126) 0 \<noteq>
      Some (Inr (Some 126, one_alloc_state))"
    using realloc_zero_eval by (auto split: option.splits sum.splits)
  ultimately show ?thesis by simp
qed

subsection \<open>The overflow check of \<open>mm_calloc\<close>\<close>

text \<open>
  The two versions of \<open>mul_of\<close> agree: both report an overflow exactly if the product
  does not fit \<open>size_t\<close>.
\<close>

lemma mul_of_generic_eq: "mul_of_generic a b = mul_of a b"
proof (cases "a = 0")
  case True
  then show ?thesis by (simp add: mul_of_generic_def mul_of_def SIZE_LIMIT_def)
next
  case False
  have "(a * b) mod SIZE_LIMIT div a < b \<longleftrightarrow> SIZE_LIMIT \<le> a * b"
  proof (cases "SIZE_LIMIT \<le> a * b")
    case True
    have "(a * b) mod SIZE_LIMIT < SIZE_LIMIT" by (simp add: SIZE_LIMIT_def)
    with True have "(a * b) mod SIZE_LIMIT < b * a" by (simp add: mult.commute)
    with False True show ?thesis by (simp add: div_less_iff_less_mult)
  next
    case False
    then show ?thesis using \<open>a \<noteq> 0\<close> by simp
  qed
  with False show ?thesis by (auto simp: mul_of_generic_def mul_of_def Let_def)
qed

subsection \<open>Tilings of the segment by blocks\<close>

text \<open>
  Facts about \<open>chain\<close>: the blocks lie between the two ends, distinct blocks do not
  overlap, every block but the last is followed by a block and every block but the first
  is preceded by one; merging two neighbours, splitting a block and appending a block
  keep the tiling.
\<close>

lemma chain_append:
  "chain sz a (xs @ ys) hi \<longleftrightarrow> (\<exists>m. chain sz a xs m \<and> chain sz m ys hi)"
  by (induction xs arbitrary: a) auto

lemma chain_le: "chain sz a bs hi \<Longrightarrow> a \<le> hi"
proof (induction bs arbitrary: a)
  case Nil
  then show ?case by simp
next
  case (Cons x xs)
  then have "chain sz (x + sz x) xs hi" and "x = a" by auto
  with Cons.IH [of "x + sz x"] show ?case by simp
qed

lemma chain_mem_conj:
  "chain sz a bs hi \<Longrightarrow> b \<in> set bs \<Longrightarrow>
   a \<le> b \<and> 2 \<le> sz b \<and> sz (b + sz b - 1) = sz b \<and> b + sz b \<le> hi"
proof (induction bs arbitrary: a)
  case Nil
  then show ?case by simp
next
  case (Cons x xs)
  show ?case
  proof (cases "b = x")
    case True
    with Cons.prems chain_le [of sz "x + sz x" xs hi] show ?thesis by auto
  next
    case False
    with Cons.prems have "b \<in> set xs" "chain sz (x + sz x) xs hi" by auto
    from Cons.IH [OF this(2) this(1)] Cons.prems(1) show ?thesis by auto
  qed
qed

lemma chain_mem:
  assumes "chain sz a bs hi" "b \<in> set bs"
  shows "a \<le> b" and "2 \<le> sz b" and "sz (b + sz b - 1) = sz b" and "b + sz b \<le> hi"
  using chain_mem_conj [OF assms] by auto

lemma chain_fun:
  "chain sz a bs hi \<Longrightarrow> chain sz a bs hi' \<Longrightarrow> hi' = hi"
  by (induction bs arbitrary: a) auto

lemma chain_split_mem:
  "chain sz a bs hi \<Longrightarrow> b \<in> set bs \<Longrightarrow>
   \<exists>xs ys. bs = xs @ b # ys \<and> chain sz a xs b \<and> chain sz (b + sz b) ys hi"
proof -
  assume c: "chain sz a bs hi" and "b \<in> set bs"
  then obtain xs ys where bs: "bs = xs @ b # ys" by (meson split_list)
  with c obtain m where m: "chain sz a xs m" "chain sz m (b # ys) hi"
    by (auto simp: chain_append)
  then have "m = b" by simp
  with m bs show ?thesis by auto
qed

lemma chain_disj:
  assumes "chain sz a bs hi" "b \<in> set bs" "c \<in> set bs" "b \<noteq> c"
  shows "b + sz b \<le> c \<or> c + sz c \<le> b"
proof -
  from chain_split_mem [OF assms(1,2)] obtain xs ys where
    bs: "bs = xs @ b # ys" and x: "chain sz a xs b" and y: "chain sz (b + sz b) ys hi"
    by blast
  from assms(3,4) bs have "c \<in> set xs \<or> c \<in> set ys" by auto
  then show ?thesis
  proof
    assume "c \<in> set xs"
    from chain_mem(4) [OF x this] show ?thesis by simp
  next
    assume "c \<in> set ys"
    from chain_mem(1) [OF y this] show ?thesis by simp
  qed
qed

lemma chain_after:
  assumes "chain sz a bs hi" "b \<in> set bs" "b + sz b \<noteq> hi"
  shows "\<exists>xs ys. bs = xs @ b # (b + sz b) # ys"
proof -
  from chain_split_mem [OF assms(1,2)] obtain xs ys where
    bs: "bs = xs @ b # ys" and y: "chain sz (b + sz b) ys hi"
    by blast
  from y assms(3) obtain c cs where "ys = c # cs" by (cases ys) auto
  with y bs show ?thesis by auto
qed

lemma chain_snoc:
  "chain sz a (xs @ [b]) hi \<longleftrightarrow>
   chain sz a xs b \<and> 2 \<le> sz b \<and> sz (b + sz b - 1) = sz b \<and> b + sz b = hi"
  by (auto simp: chain_append)

lemma chain_before:
  assumes "chain sz a bs hi" "b \<in> set bs" "b \<noteq> a"
  shows "\<exists>xs c ys. bs = xs @ c # b # ys \<and> c + sz c = b"
proof -
  from chain_split_mem [OF assms(1,2)] obtain xs ys where
    bs: "bs = xs @ b # ys" and x: "chain sz a xs b"
    by blast
  from x assms(3) have "xs \<noteq> []" by auto
  then obtain zs c where xs: "xs = zs @ [c]" by (meson rev_exhaust)
  with x have "c + sz c = b" by (simp add: chain_snoc)
  with bs xs show ?thesis by auto
qed

lemma chain_cong:
  assumes "chain sz a bs hi"
    and "\<And>b. b \<in> set bs \<Longrightarrow> sz' b = sz b \<and> sz' (b + sz b - 1) = sz (b + sz b - 1)"
  shows "chain sz' a bs hi"
  using assms by (induction bs arbitrary: a) auto

lemma chain_distinct: "chain sz a bs hi \<Longrightarrow> distinct bs"
proof (induction bs arbitrary: a)
  case Nil
  then show ?case by simp
next
  case (Cons x xs)
  from Cons.prems have c: "chain sz (x + sz x) xs hi" and x: "2 \<le> sz x" by auto
  have "x \<notin> set xs"
  proof
    assume "x \<in> set xs"
    from chain_mem(1) [OF c this] x show False by simp
  qed
  with Cons.IH [OF c] show ?case by simp
qed

subsection \<open>The circular list of free blocks\<close>

text \<open>
  \<open>ring_unlink\<close> and \<open>ring_link\<close> are the pointer updates of \<open>mm_unlink\<close> and
  \<open>mm_link\<close> on a circular list: the list stays circular, doubly linked and connected.
\<close>

lemma chain_sep: "chain sz a bs hi \<Longrightarrow> sep sz (set bs)"
  unfolding sep_def using chain_mem(2) [of sz a bs hi] chain_disj [of sz a bs hi] by blast

lemma sep_facts:
  assumes "sep sz S" "b \<in> S" "c \<in> S"
  shows "b \<noteq> c + sz c - 1" and "b + sz b - 1 = c + sz c - 1 \<longleftrightarrow> b = c"
proof -
  from assms have b: "2 \<le> sz b" and c: "2 \<le> sz c"
    and d: "b \<noteq> c \<Longrightarrow> b + sz b \<le> c \<or> c + sz c \<le> b"
    unfolding sep_def by blast+
  show "b \<noteq> c + sz c - 1"
  proof (cases "b = c")
    case True
    with b show ?thesis by simp
  next
    case False
    from d [OF this] b c show ?thesis by linarith
  qed
  show "b + sz b - 1 = c + sz c - 1 \<longleftrightarrow> b = c"
  proof (cases "b = c")
    case True
    then show ?thesis by simp
  next
    case False
    from d [OF this] b c False show ?thesis by linarith
  qed
qed

lemma ring_next:
  "ring ptr sz Fs \<Longrightarrow> b \<in> Fs \<Longrightarrow> \<exists>y\<in>Fs. ptr b = Some y \<and> ptr (y + sz y - 1) = Some b"
  unfolding ring_def by blast

lemma ring_prev:
  "ring ptr sz Fs \<Longrightarrow> b \<in> Fs \<Longrightarrow> \<exists>x\<in>Fs. ptr (b + sz b - 1) = Some x \<and> ptr x = Some b"
  unfolding ring_def by blast

lemma ring_conn:
  "ring ptr sz Fs \<Longrightarrow> b \<in> Fs \<Longrightarrow> c \<in> Fs \<Longrightarrow> (b, c) \<in> (nextrel ptr Fs)\<^sup>*"
  unfolding ring_def by blast

lemma ring_empty [simp]: "ring ptr sz {}"
  by (simp add: ring_def)

lemma nextrel_closed:
  assumes "ring ptr sz Fs" "(b, c) \<in> (nextrel ptr Fs)\<^sup>*" "b \<in> Fs"
  shows "c \<in> Fs"
  using assms(2,3)
proof (induction rule: rtrancl_induct)
  case base
  then show ?case by simp
next
  case (step y z)
  then have "y \<in> Fs" "ptr y = Some z" by (auto simp: nextrel_def)
  with ring_next [OF assms(1), of y] show ?case by auto
qed

lemma ring_self_loop:
  assumes r: "ring ptr sz Fs" and x: "x \<in> Fs" and l: "ptr x = Some x"
  shows "Fs = {x}"
proof -
  have "c = x" if "(x, c) \<in> (nextrel ptr Fs)\<^sup>*" for c
    using that
  proof (induction rule: rtrancl_induct)
    case base
    show ?case by simp
  next
    case (step y z)
    then show ?case using l by (auto simp: nextrel_def)
  qed
  with ring_conn [OF r x] x show ?thesis by blast
qed

lemma ring_single:
  assumes "ptr x = Some x" "ptr (x + sz x - 1) = Some x"
  shows "ring ptr sz {x}"
  using assms by (simp add: ring_def)

lemma ring_unlink:
  assumes r: "ring ptr sz Fs" and s: "sep sz S" and sub: "Fs \<subseteq> S" and x: "x \<in> Fs"
    and nx: "ptr x = Some nx" and pv: "ptr (x + sz x - 1) = Some pv" and ne: "nx \<noteq> x"
  shows "ring (ptr(pv := Some nx, nx + sz nx - 1 := Some pv, x := None, x + sz x - 1 := None))
           sz (Fs - {x})"
proof -
  define ptr' where
    "ptr' = ptr(pv := Some nx, nx + sz nx - 1 := Some pv, x := None, x + sz x - 1 := None)"
  from ring_next [OF r x] nx have nxF: "nx \<in> Fs" and nxb: "ptr (nx + sz nx - 1) = Some x"
    by auto
  from ring_prev [OF r x] pv have pvF: "pv \<in> Fs" and pvn: "ptr pv = Some x"
    by auto
  from pvn nx ne have pvx: "pv \<noteq> x" by auto
  have hd: "ptr' b = (if b = pv then Some nx else ptr b)" if "b \<in> Fs" "b \<noteq> x" for b
  proof -
    from that sub x nxF have "b \<in> S" "x \<in> S" "nx \<in> S" by auto
    from sep_facts(1) [OF s this(1,3)] sep_facts(1) [OF s this(1,2)] that(2)
    show ?thesis by (simp add: ptr'_def)
  qed
  have ft: "ptr' (b + sz b - 1) = (if b = nx then Some pv else ptr (b + sz b - 1))"
    if "b \<in> Fs" "b \<noteq> x" for b
  proof -
    from that sub x nxF pvF have m: "b \<in> S" "x \<in> S" "nx \<in> S" "pv \<in> S" by auto
    from sep_facts(1) [OF s m(4,1)] sep_facts(1) [OF s m(2,1)]
      sep_facts(2) [OF s m(1,2)] sep_facts(2) [OF s m(1,3)] that(2)
    show ?thesis by (auto simp: ptr'_def)
  qed
  have nxt: "\<exists>y\<in>Fs - {x}. ptr' b = Some y \<and> ptr' (y + sz y - 1) = Some b"
    if b: "b \<in> Fs - {x}" for b
  proof (cases "b = pv")
    case True
    with nxF ne hd [of pv] ft [of nx] pvF pvx show ?thesis by auto
  next
    case False
    from b ring_next [OF r, of b] obtain y where
      y: "y \<in> Fs" "ptr b = Some y" "ptr (y + sz y - 1) = Some b" by auto
    from y(3) pv False have yx: "y \<noteq> x" by auto
    from y(3) nxb b have yn: "y \<noteq> nx" by auto
    from hd [of b] ft [of y] b y yx yn False show ?thesis by auto
  qed
  have prv: "\<exists>w\<in>Fs - {x}. ptr' (b + sz b - 1) = Some w \<and> ptr' w = Some b"
    if b: "b \<in> Fs - {x}" for b
  proof (cases "b = nx")
    case True
    with pvF pvx hd [of pv] ft [of nx] nxF ne show ?thesis by auto
  next
    case False
    from b ring_prev [OF r, of b] obtain w where
      w: "w \<in> Fs" "ptr (b + sz b - 1) = Some w" "ptr w = Some b" by auto
    from w(3) nx False have wx: "w \<noteq> x" by auto
    from w(3) pvn b have wp: "w \<noteq> pv" by auto
    from hd [of w] ft [of b] b w wx wp False show ?thesis by auto
  qed
  have step: "(if b = x then (a, nx) \<in> (nextrel ptr' (Fs - {x}))\<^sup>*
              else (a, b) \<in> (nextrel ptr' (Fs - {x}))\<^sup>*)"
    if "(a, b) \<in> (nextrel ptr Fs)\<^sup>*" "a \<in> Fs - {x}" for a b
    using that
  proof (induction rule: rtrancl_induct)
    case base
    then show ?case by simp
  next
    case (step y z)
    from step.hyps(2) have yF: "y \<in> Fs" and yz: "ptr y = Some z"
      by (auto simp: nextrel_def)
    show ?case
    proof (cases "y = x")
      case True
      with yz nx have "z = nx" by simp
      with step.IH [OF step.prems] True ne show ?thesis by simp
    next
      case False
      with step.IH [OF step.prems] have ay: "(a, y) \<in> (nextrel ptr' (Fs - {x}))\<^sup>*"
        by simp
      show ?thesis
      proof (cases "z = x")
        case True
        from ring_next [OF r yF] yz True pv have "y = pv" by auto
        with hd [of pv] pvF pvx have "(y, nx) \<in> nextrel ptr' (Fs - {x})"
          by (simp add: nextrel_def)
        with ay True show ?thesis by (auto intro: rtrancl_into_rtrancl)
      next
        case zx: False
        from yz pvn zx have "y \<noteq> pv" by auto
        with hd [of y] yF False yz have "(y, z) \<in> nextrel ptr' (Fs - {x})"
          by (simp add: nextrel_def)
        with ay zx show ?thesis by (auto intro: rtrancl_into_rtrancl)
      qed
    qed
  qed
  have conn: "(b, c) \<in> (nextrel ptr' (Fs - {x}))\<^sup>*" if "b \<in> Fs - {x}" "c \<in> Fs - {x}" for b c
  proof -
    from that have "(b, c) \<in> (nextrel ptr Fs)\<^sup>*" using ring_conn [OF r] by auto
    from step [OF this that(1)] that(2) show ?thesis by simp
  qed
  from nxt prv conn show ?thesis
    unfolding ring_def ptr'_def [symmetric] by blast
qed

lemma ring_link:
  assumes r: "ring ptr sz Fs" and s: "sep sz S" and sub: "Fs \<subseteq> S" and xS: "x \<in> S"
    and xF: "x \<notin> Fs" and pos: "pos \<in> Fs" and pv: "ptr (pos + sz pos - 1) = Some pv"
  shows "ring (ptr(pv := Some x, x + sz x - 1 := Some pv, x := Some pos,
                   pos + sz pos - 1 := Some x)) sz (insert x Fs)"
proof -
  define ptr' where
    "ptr' = ptr(pv := Some x, x + sz x - 1 := Some pv, x := Some pos, pos + sz pos - 1 := Some x)"
  from ring_prev [OF r pos] pv have pvF: "pv \<in> Fs" and pvn: "ptr pv = Some pos"
    by auto
  from pos sub have posS: "pos \<in> S" by auto
  from xF pos have xpos: "x \<noteq> pos" by auto
  have hd: "ptr' b = (if b = pv then Some x else ptr b)" if "b \<in> Fs" for b
  proof -
    from that sub have "b \<in> S" by auto
    from sep_facts(1) [OF s this xS] sep_facts(1) [OF s this posS] that xF
    show ?thesis by (auto simp: ptr'_def)
  qed
  have hdx: "ptr' x = Some pos"
    using sep_facts(1) [OF s xS posS] by (simp add: ptr'_def)
  have ft: "ptr' (b + sz b - 1) = (if b = pos then Some x else ptr (b + sz b - 1))"
    if "b \<in> Fs" for b
  proof -
    from that sub pvF have m: "b \<in> S" "pv \<in> S" by auto
    from sep_facts(1) [OF s m(2,1)] sep_facts(1) [OF s xS m(1)]
      sep_facts(2) [OF s m(1) xS] sep_facts(2) [OF s m(1) posS] that xF
    show ?thesis by (auto simp: ptr'_def)
  qed
  have ftx: "ptr' (x + sz x - 1) = Some pv"
    using sep_facts(2) [OF s xS posS] sep_facts(1) [OF s xS xS] xpos by (auto simp: ptr'_def)
  have nxt: "\<exists>y\<in>insert x Fs. ptr' b = Some y \<and> ptr' (y + sz y - 1) = Some b"
    if b: "b \<in> insert x Fs" for b
  proof (cases "b = x")
    case True
    with hdx ft [OF pos] pos show ?thesis by auto
  next
    case bx: False
    with b have bF: "b \<in> Fs" by simp
    show ?thesis
    proof (cases "b = pv")
      case True
      with hd [OF pvF] ftx show ?thesis by auto
    next
      case False
      from ring_next [OF r bF] obtain y where
        y: "y \<in> Fs" "ptr b = Some y" "ptr (y + sz y - 1) = Some b" by auto
      from y(3) pv False have "y \<noteq> pos" by auto
      with hd [OF bF] ft [OF y(1)] y False show ?thesis by auto
    qed
  qed
  have prv: "\<exists>w\<in>insert x Fs. ptr' (b + sz b - 1) = Some w \<and> ptr' w = Some b"
    if b: "b \<in> insert x Fs" for b
  proof (cases "b = x")
    case True
    with ftx hd [OF pvF] pvF show ?thesis by auto
  next
    case bx: False
    with b have bF: "b \<in> Fs" by simp
    show ?thesis
    proof (cases "b = pos")
      case True
      with ft [OF pos] hdx show ?thesis by auto
    next
      case False
      from ring_prev [OF r bF] obtain w where
        w: "w \<in> Fs" "ptr (b + sz b - 1) = Some w" "ptr w = Some b" by auto
      from w(3) pvn False have "w \<noteq> pv" by auto
      with hd [OF w(1)] ft [OF bF] w False show ?thesis by auto
    qed
  qed
  have px: "(pv, x) \<in> nextrel ptr' (insert x Fs)"
    using hd [OF pvF] pvF by (simp add: nextrel_def)
  have xp: "(x, pos) \<in> nextrel ptr' (insert x Fs)"
    using hdx by (simp add: nextrel_def)
  have "nextrel ptr Fs \<subseteq> (nextrel ptr' (insert x Fs))\<^sup>*"
  proof
    fix uv assume uv: "uv \<in> nextrel ptr Fs"
    obtain u v where [simp]: "uv = (u, v)" by (cases uv)
    from uv have uF: "u \<in> Fs" and un: "ptr u = Some v" by (auto simp: nextrel_def)
    show "uv \<in> (nextrel ptr' (insert x Fs))\<^sup>*"
    proof (cases "u = pv")
      case True
      with un pvn have "v = pos" by simp
      with True px xp show ?thesis by auto
    next
      case False
      with hd [OF uF] un uF have "(u, v) \<in> nextrel ptr' (insert x Fs)"
        by (simp add: nextrel_def)
      then show ?thesis by auto
    qed
  qed
  then have mono: "(nextrel ptr Fs)\<^sup>* \<subseteq> (nextrel ptr' (insert x Fs))\<^sup>*"
    by (rule rtrancl_subset_rtrancl)
  have conn: "(b, c) \<in> (nextrel ptr' (insert x Fs))\<^sup>*"
    if "b \<in> insert x Fs" "c \<in> insert x Fs" for b c
  proof -
    have old: "(u, v) \<in> (nextrel ptr' (insert x Fs))\<^sup>*" if "u \<in> Fs" "v \<in> Fs" for u v
      using ring_conn [OF r that] mono by auto
    show ?thesis
    proof (cases "b = x")
      case bx: True
      show ?thesis
      proof (cases "c = x")
        case True
        with bx show ?thesis by simp
      next
        case False
        with that have "c \<in> Fs" by simp
        from old [OF pos this] xp bx show ?thesis by auto
      qed
    next
      case bx: False
      with that have bF: "b \<in> Fs" by simp
      show ?thesis
      proof (cases "c = x")
        case True
        from old [OF bF pvF] px True show ?thesis by auto
      next
        case False
        with that have "c \<in> Fs" by simp
        from old [OF bF this] show ?thesis .
      qed
    qed
  qed
  from nxt prv conn show ?thesis
    unfolding ring_def ptr'_def [symmetric] by blast
qed

subsection \<open>The invariant under the list operations\<close>

lemma heap_invD:
  assumes "heap_inv e st B Fs A"
  shows "brk st = heap_units e st * hsize e" "brk st \<le> maxheap e"
    "chain (s_size st) 0 B (heap_units e st)"
    "Fs \<subseteq> set B" "A \<subseteq> set B" "Fs \<inter> A = {}"
    "\<And>b. b \<in> A \<Longrightarrow> s_ptr st b = None"
    "ring (s_ptr st) (s_size st) Fs"
    "case freep st of None \<Rightarrow> Fs = {} | Some f \<Rightarrow> f \<in> Fs"
    "\<And>b. b \<in> Fs \<Longrightarrow> b + s_size st b \<notin> Fs"
    "sep (s_size st) (set B)"
  using assms chain_sep [of "s_size st" 0 B "heap_units e st"] unfolding heap_inv_def by blast+

lemma nextrel_cong:
  assumes "\<And>b. b \<in> Fs \<Longrightarrow> ptr' b = ptr b"
  shows "nextrel ptr' Fs = nextrel ptr Fs"
  using assms by (auto simp: nextrel_def)

lemma ring_cong:
  assumes r: "ring ptr sz Fs"
    and h: "\<And>b. b \<in> Fs \<Longrightarrow> ptr' b = ptr b"
    and f: "\<And>b. b \<in> Fs \<Longrightarrow> ptr' (b + sz' b - 1) = ptr (b + sz b - 1)"
  shows "ring ptr' sz' Fs"
proof -
  have n: "nextrel ptr' Fs = nextrel ptr Fs" using h by (rule nextrel_cong)
  have a: "\<exists>y\<in>Fs. ptr' b = Some y \<and> ptr' (y + sz' y - 1) = Some b" if "b \<in> Fs" for b
    using ring_next [OF r that] h f that by auto
  have b: "\<exists>x\<in>Fs. ptr' (b + sz' b - 1) = Some x \<and> ptr' x = Some b" if "b \<in> Fs" for b
    using ring_prev [OF r that] h f that by auto
  from a b ring_conn [OF r] show ?thesis unfolding ring_def n by blast
qed

lemma heap_inv_change:
  assumes inv: "heap_inv e st B Fs A"
    and brk: "brk st' = heap_units e st' * hsize e" "brk st' \<le> maxheap e"
    and ch: "chain (s_size st') 0 B' (heap_units e st')"
    and sub: "Fs \<subseteq> set B'" "A' \<subseteq> set B'" "Fs \<inter> A' = {}"
    and al: "\<And>b. b \<in> A' \<Longrightarrow> s_ptr st' b = None"
    and h: "\<And>b. b \<in> Fs \<Longrightarrow> s_ptr st' b = s_ptr st b"
    and f: "\<And>b. b \<in> Fs \<Longrightarrow>
              s_ptr st' (b + s_size st' b - 1) = s_ptr st (b + s_size st b - 1)"
    and fp: "case freep st' of None \<Rightarrow> Fs = {} | Some f \<Rightarrow> f \<in> Fs"
    and adj: "\<And>b. b \<in> Fs \<Longrightarrow> b + s_size st' b \<notin> Fs"
  shows "heap_inv e st' B' Fs A'"
  unfolding heap_inv_def
  using brk ch sub al fp adj ring_cong [OF heap_invD(8) [OF inv] h f]
  by auto

lemma heap_inv_alloc:
  "heap_inv e st B Fs A \<Longrightarrow> x \<in> set B \<Longrightarrow> x \<notin> Fs \<Longrightarrow> s_ptr st x = None \<Longrightarrow>
   heap_inv e st B Fs (insert x A)"
  unfolding heap_inv_def by auto

lemma heap_inv_drop:
  "heap_inv e st B Fs A \<Longrightarrow> heap_inv e st B Fs (A - X)"
  unfolding heap_inv_def by auto

lemma heap_inv_errno:
  "heap_inv e st B Fs A \<Longrightarrow> heap_inv e (st\<lparr>errno := x\<rparr>) B Fs A"
  unfolding heap_inv_def heap_units_def by simp

lemma unlink_inv:
  assumes inv: "heap_inv e st B Fs A" and x: "x \<in> Fs"
  shows "\<exists>st'. mm_unlink (if freep st = Some x then st\<lparr>freep := mm_prev st x\<rparr> else st) x = Inr st' \<and>
           heap_inv e st' B (Fs - {x}) A \<and> s_size st' = s_size st \<and> brk st' = brk st \<and>
           s_ptr st' x = None \<and> errno st' = errno st \<and> bytes st' = bytes st"
proof -
  define st0 where "st0 = (if freep st = Some x then st\<lparr>freep := mm_prev st x\<rparr> else st)"
  note d = heap_invD [OF inv]
  have sz0: "s_size st0 = s_size st" and pt0: "s_ptr st0 = s_ptr st" and bk0: "brk st0 = brk st"
    and er0: "errno st0 = errno st" and by0: "bytes st0 = bytes st"
    by (simp_all add: st0_def)
  from ring_next [OF d(8) x] obtain nx where
    nx: "nx \<in> Fs" "s_ptr st x = Some nx" "s_ptr st (nx + s_size st nx - 1) = Some x" by auto
  from ring_prev [OF d(8) x] obtain pv where
    pv: "pv \<in> Fs" "s_ptr st (x + s_size st x - 1) = Some pv" "s_ptr st pv = Some x" by auto
  from x d(4) have xB: "x \<in> set B" by auto
  show ?thesis
  proof (cases "nx = x")
    case True
    with ring_self_loop [OF d(8) x] nx have Fs: "Fs = {x}" by simp
    define st' where "st' = (mm_setPrev (mm_setNext st0 x None) x None)\<lparr>freep := None\<rparr>"
    have u: "mm_unlink st0 x = Inr st'"
      using True nx by (simp add: mm_unlink_def mm_next_def pt0 st'_def)
    have sz: "s_size st' = s_size st" by (simp add: st'_def sz0)
    have pt: "s_ptr st' = (s_ptr st)(x := None, x + s_size st x - 1 := None)"
      by (simp add: st'_def sz0 pt0)
    have bk: "brk st' = brk st" by (simp add: st'_def bk0)
    have fp: "freep st' = None" by (simp add: st'_def)
    have "heap_inv e st' B {} A"
      unfolding heap_inv_def
      using d(1,2,3,5,7) by (auto simp: sz pt bk fp heap_units_def)
    with u sz bk pt show ?thesis
      unfolding st0_def [symmetric] by (simp add: Fs st'_def er0 by0)
  next
    case False
    from pv(3) nx(2) False have pvx: "pv \<noteq> x" by auto
    define st' where "st' = mm_setPrev (mm_setNext (mm_setPrev (mm_setNext st0 pv (Some nx))
        nx (Some pv)) x None) x None"
    have u: "mm_unlink st0 x = Inr st'"
      using False nx pv
      by (simp add: mm_unlink_def mm_next_def mm_prev_def mm_footer_def pt0 sz0 st'_def)
    have sz: "s_size st' = s_size st" by (simp add: st'_def sz0)
    have pt: "s_ptr st' = (s_ptr st)(pv := Some nx, nx + s_size st nx - 1 := Some pv, x := None,
                x + s_size st x - 1 := None)"
      by (simp add: st'_def sz0 pt0)
    have bk: "brk st' = brk st" by (simp add: st'_def bk0)
    have fp: "freep st' = (if freep st = Some x then Some pv else freep st)"
      using pv(2) by (simp add: st'_def st0_def mm_prev_def mm_footer_def)
    have r: "ring (s_ptr st') (s_size st') (Fs - {x})"
      unfolding sz pt
      by (rule ring_unlink [OF d(8) d(11) d(4) x nx(2) pv(2) False])
    have fp': "case freep st' of None \<Rightarrow> Fs - {x} = {} | Some f \<Rightarrow> f \<in> Fs - {x}"
      using d(9) pv(1) pvx x unfolding fp by (auto split: option.splits)
    have al: "s_ptr st' b = None" if "b \<in> A" for b
    proof -
      from that d(5,6) pv(1) nx(1) d(4) have "b \<in> set B" "b \<noteq> pv" "nx \<in> set B" by auto
      from sep_facts(1) [OF d(11) this(1,3)] this(2) d(7) [OF that]
      show ?thesis by (simp add: pt)
    qed
    have "heap_inv e st' B (Fs - {x}) A"
      unfolding heap_inv_def
      using d(1,2,3,4,5,6,10) al r fp' by (auto simp: sz bk heap_units_def)
    with u sz bk show ?thesis
      unfolding st0_def [symmetric] by (simp add: pt st'_def er0 by0)
  qed
qed

lemma link_inv:
  assumes inv: "heap_inv e st B Fs A" and xB: "x \<in> set B" and xF: "x \<notin> Fs" and xA: "x \<notin> A"
    and up: "x + s_size st x \<notin> Fs" and lo: "\<And>b. b \<in> Fs \<Longrightarrow> b + s_size st b \<noteq> x"
  shows "\<exists>st' q. mm_link st x (freep st) = Inr st' \<and> mm_prev st' x = Some q \<and>
           s_ptr st' q = Some x \<and>
           heap_inv e (st'\<lparr>freep := Some q\<rparr>) B (insert x Fs) A \<and>
           s_size st' = s_size st \<and> brk st' = brk st \<and>
           errno st' = errno st \<and> bytes st' = bytes st"
proof -
  note d = heap_invD [OF inv]
  from chain_mem [OF d(3) xB] have x2: "2 \<le> s_size st x" by simp
  have adj: "b + s_size st b \<notin> insert x Fs" if "b \<in> insert x Fs" for b
    using that up lo d(10) x2 by auto
  show ?thesis
  proof (cases "freep st")
    case None
    with d(9) have Fs: "Fs = {}" by simp
    define st' where "st' = (mm_setPrev (mm_setNext st x (Some x)) x (Some x))\<lparr>freep := Some x\<rparr>"
    have l: "mm_link st x (freep st) = Inr st'"
      by (simp add: None mm_link_def st'_def)
    have sz: "s_size st' = s_size st" by (simp add: st'_def)
    have pt: "s_ptr st' = (s_ptr st)(x := Some x, x + s_size st x - 1 := Some x)"
      by (simp add: st'_def)
    have bk: "brk st' = brk st" by (simp add: st'_def)
    have p: "mm_prev st' x = Some x" "s_ptr st' x = Some x"
      using x2 by (simp_all add: mm_prev_def mm_footer_def sz pt)
    have al: "s_ptr st' b = None" if "b \<in> A" for b
    proof -
      from that d(5) xA have "b \<in> set B" "b \<noteq> x" by auto
      from sep_facts(1) [OF d(11) this(1) xB] this(2) d(7) [OF that]
      show ?thesis by (simp add: pt)
    qed
    have r: "ring (s_ptr st') (s_size st') {x}"
      using p by (intro ring_single) (simp_all add: mm_prev_def mm_footer_def)
    have "heap_inv e (st'\<lparr>freep := Some x\<rparr>) B (insert x Fs) A"
      unfolding heap_inv_def
      using d(1,2,3,5) al r xB xA x2 by (auto simp: sz bk heap_units_def Fs)
    with l p sz bk show ?thesis by (auto simp: st'_def)
  next
    case (Some pos)
    with d(9) have pos: "pos \<in> Fs" by simp
    from ring_prev [OF d(8) pos] obtain pv where
      pv: "pv \<in> Fs" "s_ptr st (pos + s_size st pos - 1) = Some pv" "s_ptr st pv = Some pos"
      by auto
    define st' where "st' = mm_setPrev (mm_setNext (mm_setPrev (mm_setNext st pv (Some x))
        x (Some pv)) x (Some pos)) pos (Some x)"
    have l: "mm_link st x (freep st) = Inr st'"
      using pv(2) by (simp add: Some mm_link_def mm_prev_def mm_footer_def st'_def)
    have sz: "s_size st' = s_size st" by (simp add: st'_def)
    have pt: "s_ptr st' = (s_ptr st)(pv := Some x, x + s_size st x - 1 := Some pv, x := Some pos,
                pos + s_size st pos - 1 := Some x)"
      by (simp add: st'_def)
    have bk: "brk st' = brk st" by (simp add: st'_def)
    from pos pv(1) d(4) have posB: "pos \<in> set B" and pvB: "pv \<in> set B" by auto
    from xF pos pv(1) have xpos: "x \<noteq> pos" and xpv: "x \<noteq> pv" by auto
    have p1: "mm_prev st' x = Some pv"
      using sep_facts(2) [OF d(11) xB posB] sep_facts(1) [OF d(11) xB xB] xpos
      by (auto simp: mm_prev_def mm_footer_def sz pt)
    have p2: "s_ptr st' pv = Some x"
      using sep_facts(1) [OF d(11) pvB xB] sep_facts(1) [OF d(11) pvB posB] xpv
      by (auto simp: pt)
    have r: "ring (s_ptr st') (s_size st') (insert x Fs)"
      unfolding sz pt
      by (rule ring_link [OF d(8) d(11) d(4) xB xF pos pv(2)])
    have al: "s_ptr st' b = None" if "b \<in> A" for b
    proof -
      from that d(5,6) xA pv(1) have "b \<in> set B" "b \<noteq> x" "b \<noteq> pv" by auto
      from sep_facts(1) [OF d(11) this(1) xB] sep_facts(1) [OF d(11) this(1) posB] this(2,3)
        d(7) [OF that]
      show ?thesis by (simp add: pt)
    qed
    have "heap_inv e (st'\<lparr>freep := Some pv\<rparr>) B (insert x Fs) A"
      unfolding heap_inv_def
      using d(1,2,3,4,5,6) al r xB xA pv(1) adj by (auto simp: sz bk heap_units_def)
    with l p1 p2 sz bk show ?thesis by (auto simp: st'_def)
  qed
qed

subsection \<open>The invariant under release\<close>

text \<open>
  \<open>mm_free\<close> is applied to a block that is neither free nor allocated: a block that the
  client releases, or the block that \<open>morecore\<close> has just added. The two coalescing
  steps keep the invariant, with the block merged into its free neighbours, and the final
  \<open>mm_link\<close> puts the block on the free list, right after the new \<open>freep\<close>.
\<close>

lemma heap_units_bound:
  assumes ve: "valid_env e" and inv: "heap_inv e st B Fs A"
  shows "heap_units e st < SIZE_LIMIT" and "heap_units e st * hsize e < SIZE_LIMIT"
proof -
  note d = heap_invD [OF inv]
  from ve have H: "0 < hsize e" and m: "maxheap e < SIZE_LIMIT"
    by (auto simp: valid_env_def)
  from d(1,2) m show b: "heap_units e st * hsize e < SIZE_LIMIT" by simp
  have "heap_units e st \<le> heap_units e st * hsize e"
    using H by (cases "hsize e") auto
  then show "heap_units e st < SIZE_LIMIT" using b by (rule le_less_trans)
qed

lemma block_bound:
  assumes ve: "valid_env e" and inv: "heap_inv e st B Fs A" and b: "b \<in> set B"
  shows "2 \<le> s_size st b" and "b + s_size st b \<le> heap_units e st"
    and "s_size st (b + s_size st b - 1) = s_size st b"
    and "b + s_size st b < SIZE_LIMIT"
  using chain_mem [OF heap_invD(3) [OF inv] b] heap_units_bound(1) [OF ve inv] by auto

lemma mm_after_eq:
  assumes ve: "valid_env e" and inv: "heap_inv e st B Fs A" and b: "bp \<in> set B"
  shows "mm_after e st bp =
           (if bp + s_size st bp = heap_units e st then None else Some (bp + s_size st bp))"
proof -
  note d = heap_invD [OF inv]
  from ve have H: "0 < hsize e" by (simp add: valid_env_def)
  note bb = block_bound [OF ve inv b]
  from bb(1,2) have "0 < heap_units e st" by simp
  with H have pos: "0 < heap_units e st * hsize e" by simp
  have "byte_addr e (bp + s_size st bp) > mem_heap_hi e st \<longleftrightarrow>
        heap_units e st * hsize e \<le> (bp + s_size st bp) * hsize e"
    unfolding byte_addr_def mem_heap_hi_def using d(1) pos by linarith
  also have "\<dots> \<longleftrightarrow> heap_units e st \<le> bp + s_size st bp"
    using H by simp
  also have "\<dots> \<longleftrightarrow> bp + s_size st bp = heap_units e st"
    using bb(2) by auto
  finally show ?thesis by (simp add: mm_after_def)
qed

lemma mm_before_eq:
  assumes ve: "valid_env e"
  shows "mm_before e st bp = (if bp = 0 then None else Some (mm_header st (bp - 1)))"
  using ve by (simp add: mm_before_def byte_addr_def mem_heap_lo_def valid_env_def)

lemma top_not_block:
  assumes inv: "heap_inv e st B Fs A"
  shows "heap_units e st \<notin> set B"
proof
  assume "heap_units e st \<in> set B"
  from chain_mem(2,4) [OF heap_invD(3) [OF inv] this] show False by simp
qed

lemma chain_merge:
  assumes c: "chain sz a (xs @ b # c # ys) hi" and n: "n = sz b + sz c"
  shows "chain (sz(b := n, b + n - 1 := n)) a (xs @ b # ys) hi"
proof -
  from c obtain m where m: "chain sz a xs m" "chain sz m (b # c # ys) hi"
    by (auto simp: chain_append)
  then have mb: "m = b" and b2: "2 \<le> sz b" and cb: "c = b + sz b" and c2: "2 \<le> sz c"
    and ys: "chain sz (c + sz c) ys hi"
    by auto
  define sz' where "sz' = sz(b := n, b + n - 1 := n)"
  have x: "chain sz' a xs b"
  proof (rule chain_cong)
    show "chain sz a xs b" using m(1) mb by simp
    fix x assume "x \<in> set xs"
    from chain_mem(2,4) [OF \<open>chain sz a xs b\<close> this] b2 n
    have "x \<noteq> b" "x \<noteq> b + n - 1" "x + sz x - 1 \<noteq> b" "x + sz x - 1 \<noteq> b + n - 1"
      by linarith+
    then show "sz' x = sz x \<and> sz' (x + sz x - 1) = sz (x + sz x - 1)"
      by (simp add: sz'_def)
  qed
  have y: "chain sz' (b + n) ys hi"
  proof (rule chain_cong)
    show "chain sz (b + n) ys hi" using ys cb n by (simp add: add.assoc)
    fix y assume "y \<in> set ys"
    from chain_mem(1,2) [OF \<open>chain sz (b + n) ys hi\<close> this] b2 c2 n
    have "y \<noteq> b" "y \<noteq> b + n - 1" "y + sz y - 1 \<noteq> b" "y + sz y - 1 \<noteq> b + n - 1"
      by linarith+
    then show "sz' y = sz y \<and> sz' (y + sz y - 1) = sz (y + sz y - 1)"
      by (simp add: sz'_def)
  qed
  have "sz' b = n" "sz' (b + n - 1) = n" "2 \<le> n"
    using b2 c2 n by (simp_all add: sz'_def)
  with x y show ?thesis
    unfolding sz'_def [symmetric] by (auto simp: chain_append)
qed

lemma free_upper_inv:
  assumes ve: "valid_env e" and inv: "heap_inv e st B Fs A"
    and all: "set B = insert bp (Fs \<union> A)" and bF: "bp \<notin> Fs" and bA: "bp \<notin> A"
  shows "\<exists>st1 B1 Fs1. mm_free_upper e st bp = Inr st1 \<and> heap_inv e st1 B1 Fs1 A \<and>
           set B1 = insert bp (Fs1 \<union> A) \<and> bp \<notin> Fs1 \<and> bp + s_size st1 bp \<notin> Fs1 \<and>
           s_size st bp \<le> s_size st1 bp \<and> brk st1 = brk st \<and> errno st1 = errno st \<and>
           bytes st1 = bytes st"
proof -
  note d = heap_invD [OF inv]
  from all have bB: "bp \<in> set B" by simp
  note bb = block_bound [OF ve inv bB]
  note af = mm_after_eq [OF ve inv bB]
  define U where "U = bp + s_size st bp"
  show ?thesis
  proof (cases "U = heap_units e st")
    case True
    with af have "mm_free_upper e st bp = Inr st"
      by (simp add: mm_free_upper_def U_def)
    moreover have "bp + s_size st bp \<notin> Fs"
      using True top_not_block [OF inv] d(4) by (auto simp: U_def)
    ultimately show ?thesis using inv all bF by blast
  next
    case False
    with af have af': "mm_after e st bp = Some U" by (simp add: U_def)
    from chain_after [OF d(3) bB] False obtain xs ys where
      B: "B = xs @ bp # U # ys" by (auto simp: U_def)
    from B have UB: "U \<in> set B" by simp
    from bb(1) have Ubp: "U \<noteq> bp" by (simp add: U_def)
    show ?thesis
    proof (cases "s_ptr st U = None")
      case True
      with af' have "mm_free_upper e st bp = Inr st"
        by (simp add: mm_free_upper_def)
      moreover have "U \<notin> Fs"
        using ring_next [OF d(8), of U] True by auto
      ultimately show ?thesis using inv all bF unfolding U_def by blast
    next
      case nn: False
      with d(7) [of U] have "U \<notin> A" by auto
      with UB Ubp all have UF: "U \<in> Fs" by auto
      from unlink_inv [OF inv UF] obtain st2 where
        u: "mm_unlink (if freep st = Some U then st\<lparr>freep := mm_prev st U\<rparr> else st) U = Inr st2"
        and inv2: "heap_inv e st2 B (Fs - {U}) A"
        and sz2: "s_size st2 = s_size st" and bk2: "brk st2 = brk st"
        and er2: "errno st2 = errno st" and by2: "bytes st2 = bytes st"
        by blast
      note d2 = heap_invD [OF inv2]
      define n where "n = s_size st bp + s_size st U"
      note ub = block_bound [OF ve inv UB]
      from ub(4) have nl: "n mod SIZE_LIMIT = n"
        by (simp add: n_def U_def add.assoc)
      define st4 where "st4 = mm_setPrev (mm_setNext (mm_setSize st2 bp n) bp None) bp None"
      have res: "mm_free_upper e st bp = Inr st4"
        using af' nn u nl
        by (auto simp: mm_free_upper_def Let_def mm_size_def sz2 n_def [symmetric] st4_def)
      have sz4: "s_size st4 = (s_size st)(bp := n, bp + n - 1 := n)"
        by (simp add: st4_def sz2)
      have szb: "s_size (mm_setSize st2 bp n) bp = n" by simp
      have pt4: "s_ptr st4 = (s_ptr st2)(bp := None, bp + n - 1 := None)"
        unfolding st4_def setPrev_simps setNext_simps szb by simp
      have rest: "brk st4 = brk st" "errno st4 = errno st" "bytes st4 = bytes st"
        "freep st4 = freep st2"
        by (simp_all add: st4_def bk2 er2 by2)
      have fU: "bp + n - 1 = U + s_size st U - 1"
        by (simp add: n_def U_def add.assoc)
      from chain_distinct [OF d(3)] B have setB: "set (xs @ bp # ys) = set B - {U}"
        by auto
      have keep: "s_size st4 b = s_size st b \<and> b \<noteq> bp \<and> b \<noteq> bp + n - 1 \<and>
                  b + s_size st b - 1 \<noteq> bp \<and> b + s_size st b - 1 \<noteq> bp + n - 1"
        if "b \<in> Fs - {U}" for b
      proof -
        from that d(4) bF have b: "b \<in> set B" "b \<noteq> bp" "b \<noteq> U" by auto
        from sep_facts(1) [OF d(11) b(1) UB] sep_facts(1) [OF d(11) bB b(1)]
          sep_facts(2) [OF d(11) b(1) UB] b(2,3)
        show ?thesis unfolding fU sz4 by auto
      qed
      have inv4: "heap_inv e st4 (xs @ bp # ys) (Fs - {U}) A"
      proof (rule heap_inv_change [OF inv2])
        show "brk st4 = heap_units e st4 * hsize e" "brk st4 \<le> maxheap e"
          using d(1,2) by (simp_all add: rest heap_units_def)
        show "chain (s_size st4) 0 (xs @ bp # ys) (heap_units e st4)"
          using chain_merge [OF d(3) [unfolded B] n_def]
          by (simp add: sz4 heap_units_def rest)
        show "Fs - {U} \<subseteq> set (xs @ bp # ys)" unfolding setB using d(4) by auto
        show "A \<subseteq> set (xs @ bp # ys)" unfolding setB using d(5) \<open>U \<notin> A\<close> by auto
        show "(Fs - {U}) \<inter> A = {}" using d(6) by auto
        show "s_ptr st4 b = None" if "b \<in> A" for b
          using d2(7) [OF that] by (simp add: pt4)
        show "s_ptr st4 b = s_ptr st2 b" if "b \<in> Fs - {U}" for b
          using keep [OF that] by (simp add: pt4)
        show "s_ptr st4 (b + s_size st4 b - 1) = s_ptr st2 (b + s_size st2 b - 1)"
          if "b \<in> Fs - {U}" for b
          using keep [OF that] by (simp add: pt4 sz2)
        show "case freep st4 of None \<Rightarrow> Fs - {U} = {} | Some f \<Rightarrow> f \<in> Fs - {U}"
          using d2(9) by (simp add: rest)
        show "b + s_size st4 b \<notin> Fs - {U}" if "b \<in> Fs - {U}" for b
          using keep [OF that] d(10) [of b] that by auto
      qed
      have "bp + s_size st4 bp \<notin> Fs - {U}"
        using d(10) [OF UF] bb(1) ub(1) by (simp add: sz4 n_def U_def add.assoc)
      moreover have "s_size st bp \<le> s_size st4 bp"
        by (simp add: sz4 n_def)
      moreover have "set (xs @ bp # ys) = insert bp ((Fs - {U}) \<union> A)"
        unfolding setB using all Ubp \<open>U \<notin> A\<close> by auto
      ultimately show ?thesis using res inv4 rest bF by blast
    qed
  qed
qed

lemma free_lower_inv:
  assumes ve: "valid_env e" and inv: "heap_inv e st B Fs A"
    and all: "set B = insert bp (Fs \<union> A)" and bF: "bp \<notin> Fs" and bA: "bp \<notin> A"
    and up: "bp + s_size st bp \<notin> Fs"
  shows "\<exists>st2 bp' B2 Fs2. mm_free_lower e st bp = Inr (st2, bp') \<and> heap_inv e st2 B2 Fs2 A \<and>
           set B2 = insert bp' (Fs2 \<union> A) \<and> bp' \<notin> Fs2 \<and> bp' \<notin> A \<and>
           bp' + s_size st2 bp' \<notin> Fs2 \<and> (\<forall>b\<in>Fs2. b + s_size st2 b \<noteq> bp') \<and>
           s_size st bp \<le> s_size st2 bp' \<and> brk st2 = brk st \<and> errno st2 = errno st \<and>
           bytes st2 = bytes st"
proof -
  note d = heap_invD [OF inv]
  from all have bB: "bp \<in> set B" by simp
  note bb = block_bound [OF ve inv bB]
  note bf = mm_before_eq [OF ve, of st bp]
  show ?thesis
  proof (cases "bp = 0")
    case True
    with bf have "mm_free_lower e st bp = Inr (st, bp)"
      by (simp add: mm_free_lower_def)
    moreover have "\<forall>b\<in>Fs. b + s_size st b \<noteq> bp"
    proof
      fix b assume "b \<in> Fs"
      with d(4) have "b \<in> set B" by auto
      from chain_mem(2) [OF d(3) this] True show "b + s_size st b \<noteq> bp" by simp
    qed
    ultimately show ?thesis using inv all bF bA up by blast
  next
    case False
    from chain_before [OF d(3) bB False] obtain xs c ys where
      B: "B = xs @ c # bp # ys" and cb: "c + s_size st c = bp" by blast
    from B have cB: "c \<in> set B" by simp
    note cc = block_bound [OF ve inv cB]
    from cc(1) cb have cbp: "c \<noteq> bp" by auto
    have "mm_header st (bp - 1) = c"
      using cc(1,3) cb by (auto simp: mm_header_def)
    with bf False have bf': "mm_before e st bp = Some c" by simp
    have only: "b = c" if "b \<in> set B" "b + s_size st b = bp" for b
    proof (rule ccontr)
      assume "b \<noteq> c"
      from chain_disj [OF d(3) that(1) cB this] that(2) cb
        chain_mem(2) [OF d(3) that(1)] cc(1)
      show False by linarith
    qed
    show ?thesis
    proof (cases "s_ptr st c = None")
      case True
      with bf' have "mm_free_lower e st bp = Inr (st, bp)"
        by (simp add: mm_free_lower_def)
      moreover have cF: "c \<notin> Fs"
        using ring_next [OF d(8), of c] True by auto
      have "\<forall>b\<in>Fs. b + s_size st b \<noteq> bp"
        using only d(4) cF by blast
      ultimately show ?thesis using inv all bF bA up by blast
    next
      case nn: False
      with d(7) [of c] have cA: "c \<notin> A" by auto
      with cB cbp all have cF: "c \<in> Fs" by auto
      from unlink_inv [OF inv cF] obtain st2 where
        u: "mm_unlink (if freep st = Some c then st\<lparr>freep := mm_prev st c\<rparr> else st) c = Inr st2"
        and inv2: "heap_inv e st2 B (Fs - {c}) A"
        and sz2: "s_size st2 = s_size st" and bk2: "brk st2 = brk st"
        and er2: "errno st2 = errno st" and by2: "bytes st2 = bytes st"
        by blast
      note d2 = heap_invD [OF inv2]
      define n where "n = s_size st c + s_size st bp"
      from bb(4) cb have nl: "n mod SIZE_LIMIT = n"
        by (simp add: n_def)
      have fB: "c + n - 1 = bp + s_size st bp - 1"
        using cb by (simp add: n_def)
      define st3 where "st3 = mm_setSize st2 c n"
      define st4 where "st4 = mm_setPrev (mm_setNext st3 bp None) bp None"
      define st5 where "st5 = mm_setPrev (mm_setNext st4 c None) c None"
      have res: "mm_free_lower e st bp = Inr (st5, c)"
        using bf' nn u nl
        by (auto simp: mm_free_lower_def Let_def mm_size_def sz2 n_def [symmetric]
            st3_def st4_def st5_def)
      have sz3: "s_size st3 = (s_size st)(c := n, c + n - 1 := n)"
        by (simp add: st3_def sz2)
      have "bp \<noteq> bp + s_size st bp - 1" using bb(1) by linarith
      then have sz3b: "s_size st3 bp = s_size st bp"
        using cbp unfolding sz3 fB by simp
      have sz5: "s_size st5 = (s_size st)(c := n, c + n - 1 := n)"
        by (simp add: st5_def st4_def sz3)
      have pt4: "s_ptr st4 = (s_ptr st2)(bp := None, c + n - 1 := None)"
        unfolding st4_def setPrev_simps setNext_simps sz3b fB by (simp add: st3_def)
      have sz4c: "s_size st4 c = n"
        by (simp add: st4_def sz3)
      have pt5: "s_ptr st5 = (s_ptr st2)(bp := None, c + n - 1 := None, c := None,
                   c + n - 1 := None)"
        unfolding st5_def setPrev_simps setNext_simps sz4c pt4 by simp
      have rest: "brk st5 = brk st" "errno st5 = errno st" "bytes st5 = bytes st"
        "freep st5 = freep st2"
        by (simp_all add: st5_def st4_def st3_def bk2 er2 by2)
      from chain_distinct [OF d(3)] B have setB: "set (xs @ c # ys) = set B - {bp}"
        by auto
      have keep: "s_size st5 b = s_size st b \<and> b \<noteq> bp \<and> b \<noteq> c \<and> b \<noteq> c + n - 1 \<and>
                  b + s_size st b - 1 \<noteq> bp \<and> b + s_size st b - 1 \<noteq> c \<and>
                  b + s_size st b - 1 \<noteq> c + n - 1"
        if "b \<in> Fs - {c}" for b
      proof -
        from that d(4) bF have b: "b \<in> set B" "b \<noteq> bp" "b \<noteq> c" by auto
        from sep_facts(1) [OF d(11) b(1) bB] sep_facts(1) [OF d(11) bB b(1)]
          sep_facts(1) [OF d(11) cB b(1)] sep_facts(2) [OF d(11) b(1) bB] b(2,3)
        show ?thesis unfolding fB sz5 by auto
      qed
      have inv5: "heap_inv e st5 (xs @ c # ys) (Fs - {c}) A"
      proof (rule heap_inv_change [OF inv2])
        show "brk st5 = heap_units e st5 * hsize e" "brk st5 \<le> maxheap e"
          using d(1,2) by (simp_all add: rest heap_units_def)
        have "bp = c + s_size st c" using cb by simp
        from chain_merge [OF d(3) [unfolded B, unfolded this] n_def [unfolded this]]
        show "chain (s_size st5) 0 (xs @ c # ys) (heap_units e st5)"
          using cb by (simp add: sz5 heap_units_def rest n_def)
        show "Fs - {c} \<subseteq> set (xs @ c # ys)" unfolding setB using d(4) bF by auto
        show "A \<subseteq> set (xs @ c # ys)" unfolding setB using d(5) bA by auto
        show "(Fs - {c}) \<inter> A = {}" using d(6) by auto
        show "s_ptr st5 b = None" if "b \<in> A" for b
          using d2(7) [OF that] by (simp add: pt5)
        show "s_ptr st5 b = s_ptr st2 b" if "b \<in> Fs - {c}" for b
          using keep [OF that] by (simp add: pt5)
        show "s_ptr st5 (b + s_size st5 b - 1) = s_ptr st2 (b + s_size st2 b - 1)"
          if "b \<in> Fs - {c}" for b
          using keep [OF that] by (simp add: pt5 sz2)
        show "case freep st5 of None \<Rightarrow> Fs - {c} = {} | Some f \<Rightarrow> f \<in> Fs - {c}"
          using d2(9) by (simp add: rest)
        show "b + s_size st5 b \<notin> Fs - {c}" if "b \<in> Fs - {c}" for b
          using keep [OF that] d(10) [of b] that by auto
      qed
      have s5c: "s_size st5 c = n" using cc(1) bb(1) by (auto simp: sz5 n_def)
      have "c + s_size st5 c \<notin> Fs - {c}"
        using up cb by (simp add: s5c n_def add.assoc [symmetric])
      moreover have "s_size st bp \<le> s_size st5 c"
        by (simp add: s5c n_def)
      moreover have "set (xs @ c # ys) = insert c ((Fs - {c}) \<union> A)"
        unfolding setB using all cbp cF bA bF by auto
      moreover have "\<forall>b\<in>Fs - {c}. b + s_size st5 b \<noteq> c"
      proof
        fix b assume b: "b \<in> Fs - {c}"
        with keep [OF b] d(10) [of b] cF show "b + s_size st5 b \<noteq> c" by auto
      qed
      ultimately show ?thesis using res inv5 rest cA by blast
    qed
  qed
qed

lemma free_inv:
  assumes ve: "valid_env e" and inv: "heap_inv e st B Fs A"
    and all: "set B = insert bp (Fs \<union> A)" and bF: "bp \<notin> Fs" and bA: "bp \<notin> A"
  shows "\<exists>st' B' Fs' q nb. mm_free e st (Some (bp + 1)) = Inr st' \<and> heap_inv e st' B' Fs' A \<and>
           set B' = Fs' \<union> A \<and> freep st' = Some q \<and> s_ptr st' q = Some nb \<and> nb \<in> Fs' \<and>
           s_size st bp \<le> s_size st' nb \<and> brk st' = brk st \<and> errno st' = errno st \<and>
           bytes st' = bytes st"
proof -
  note d = heap_invD [OF inv]
  from all have bB: "bp \<in> set B" by simp
  note bb = block_bound [OF ve inv bB]
  from ve have H: "0 < hsize e" by (simp add: valid_env_def)
  have a: "s_size st bp \<le> heap_units e st" using bb(2) by simp
  have "mm_bytes e (s_size st bp) \<le> s_size st bp * hsize e"
    unfolding mm_bytes_def by (rule mod_less_eq_dividend)
  also have "\<dots> \<le> heap_units e st * hsize e"
    using a by (rule mult_le_mono1)
  also have "\<dots> = mem_heapsize st"
    using d(1) by (simp add: mem_heapsize_def)
  finally have "mm_bytes e (s_size st bp) \<le> mem_heapsize st" .
  with bb(1) have ok: "s_size st bp > 0 \<and> mm_bytes e (s_size st bp) \<le> mem_heapsize st"
    by simp
  show ?thesis
  proof (cases "freep st")
    case None
    with d(9) have Fs: "Fs = {}" by simp
    define X where "X = (mm_setPrev (mm_setNext st bp (Some bp)) bp (Some bp))\<lparr>freep := Some bp\<rparr>"
    have res: "mm_free e st (Some (bp + 1)) = Inr X"
      using ok None by (simp add: mm_free_def mm_block_def X_def)
    have lk: "mm_link st bp (freep st) = Inr X"
      by (simp add: None mm_link_def X_def)
    from link_inv [OF inv bB bF bA] Fs lk obtain q where
      q: "mm_prev X bp = Some q" "s_ptr X q = Some bp"
        "heap_inv e (X\<lparr>freep := Some q\<rparr>) B (insert bp Fs) A"
        "s_size X = s_size st" "brk X = brk st" "errno X = errno st" "bytes X = bytes st"
      by auto
    have "mm_prev X bp = Some bp"
      by (simp add: mm_prev_def mm_footer_def X_def)
    with q(1) have qb: "q = bp" by simp
    have "X\<lparr>freep := Some bp\<rparr> = X" by (simp add: X_def)
    with q(3) qb have "heap_inv e X B (insert bp Fs) A" by simp
    moreover have "freep X = Some bp" by (simp add: X_def)
    moreover have "set B = insert bp Fs \<union> A" using all by simp
    ultimately show ?thesis using res q(2,4,5,6,7) qb by auto
  next
    case (Some f)
    from free_upper_inv [OF ve inv all bF bA] obtain st1 B1 Fs1 where
      u: "mm_free_upper e st bp = Inr st1" and inv1: "heap_inv e st1 B1 Fs1 A"
      and all1: "set B1 = insert bp (Fs1 \<union> A)" and bF1: "bp \<notin> Fs1"
      and up1: "bp + s_size st1 bp \<notin> Fs1" and le1: "s_size st bp \<le> s_size st1 bp"
      and r1: "brk st1 = brk st" "errno st1 = errno st" "bytes st1 = bytes st"
      by blast
    from free_lower_inv [OF ve inv1 all1 bF1 bA up1] obtain st2 bp' B2 Fs2 where
      l: "mm_free_lower e st1 bp = Inr (st2, bp')" and inv2: "heap_inv e st2 B2 Fs2 A"
      and all2: "set B2 = insert bp' (Fs2 \<union> A)" and bF2: "bp' \<notin> Fs2" and bA2: "bp' \<notin> A"
      and up2: "bp' + s_size st2 bp' \<notin> Fs2" and lo2: "\<forall>b\<in>Fs2. b + s_size st2 b \<noteq> bp'"
      and le2: "s_size st1 bp \<le> s_size st2 bp'"
      and r2: "brk st2 = brk st1" "errno st2 = errno st1" "bytes st2 = bytes st1"
      by blast
    from all2 have bB2: "bp' \<in> set B2" by simp
    from lo2 have lo2': "\<And>b. b \<in> Fs2 \<Longrightarrow> b + s_size st2 b \<noteq> bp'" by blast
    from link_inv [OF inv2 bB2 bF2 bA2 up2 lo2'] obtain st3 q where
      k: "mm_link st2 bp' (freep st2) = Inr st3" and q: "mm_prev st3 bp' = Some q"
      and qn: "s_ptr st3 q = Some bp'"
      and inv3: "heap_inv e (st3\<lparr>freep := Some q\<rparr>) B2 (insert bp' Fs2) A"
      and r3: "s_size st3 = s_size st2" "brk st3 = brk st2" "errno st3 = errno st2"
        "bytes st3 = bytes st2"
      by blast
    have res: "mm_free e st (Some (bp + 1)) = Inr (st3\<lparr>freep := Some q\<rparr>)"
      using ok Some u l k q by (simp add: mm_free_def mm_block_def)
    have "set B2 = insert bp' Fs2 \<union> A" using all2 by simp
    moreover have "s_size st bp \<le> s_size (st3\<lparr>freep := Some q\<rparr>) bp'"
      using le1 le2 by (simp add: r3)
    ultimately show ?thesis
      using res inv3 qn r1 r2 r3 by (intro exI [of _ "st3\<lparr>freep := Some q\<rparr>"] exI [of _ B2]
          exI [of _ "insert bp' Fs2"] exI [of _ q] exI [of _ bp']) simp
  qed
qed

subsection \<open>The invariant under growth and allocation\<close>

text \<open>
  \<open>malloc_post\<close> is what a call of \<open>mm_malloc\<close> establishes. The traversal returns
  because every free block reaches \<open>freep\<close> along the links, and after a successful
  \<open>morecore\<close> the next block visited is the new one, which is large enough.
\<close>

lemma heap_units_bound3:
  assumes ve: "valid_env e" and inv: "heap_inv e st B Fs A"
  shows "heap_units e st + 3 \<le> SIZE_LIMIT"
proof -
  note d = heap_invD [OF inv]
  from ve have H: "0 < hsize e" and m: "maxheap e + 3 * hsize e \<le> SIZE_LIMIT"
    by (auto simp: valid_env_def)
  have "(heap_units e st + 3) * 1 \<le> (heap_units e st + 3) * hsize e"
    using H by (intro mult_le_mono2) simp
  also have "\<dots> = heap_units e st * hsize e + 3 * hsize e"
    by (simp add: algebra_simps)
  also have "\<dots> \<le> SIZE_LIMIT" using d(1,2) m by simp
  finally show ?thesis by simp
qed

lemma heap_inv_freep:
  "heap_inv e st B Fs A \<Longrightarrow> f \<in> Fs \<Longrightarrow> heap_inv e (st\<lparr>freep := Some f\<rparr>) B Fs A"
  unfolding heap_inv_def heap_units_def by simp

lemma chain_split:
  assumes c: "chain sz a (xs @ p # ys) hi" and s: "sz p = m + k" and m: "2 \<le> m" and k: "2 \<le> k"
  shows "chain (sz(p := m, p + m - 1 := m, p + m := k, p + m + k - 1 := k)) a
           (xs @ p # (p + m) # ys) hi"
proof -
  from c obtain q where q: "chain sz a xs q" "chain sz q (p # ys) hi"
    by (auto simp: chain_append)
  then have qp: "q = p" and ys: "chain sz (p + sz p) ys hi"
    by auto
  define sz' where "sz' = sz(p := m, p + m - 1 := m, p + m := k, p + m + k - 1 := k)"
  have x: "chain sz' a xs p"
  proof (rule chain_cong)
    show "chain sz a xs p" using q(1) qp by simp
    fix x assume "x \<in> set xs"
    from chain_mem(2,4) [OF \<open>chain sz a xs p\<close> this] m k
    have "x \<noteq> p" "x \<noteq> p + m - 1" "x \<noteq> p + m" "x \<noteq> p + m + k - 1"
      "x + sz x - 1 \<noteq> p" "x + sz x - 1 \<noteq> p + m - 1" "x + sz x - 1 \<noteq> p + m"
      "x + sz x - 1 \<noteq> p + m + k - 1"
      by linarith+
    then show "sz' x = sz x \<and> sz' (x + sz x - 1) = sz (x + sz x - 1)"
      by (simp add: sz'_def)
  qed
  have y: "chain sz' (p + m + k) ys hi"
  proof (rule chain_cong)
    show "chain sz (p + m + k) ys hi" using ys s by (simp add: add.assoc)
    fix y assume "y \<in> set ys"
    from chain_mem(1,2) [OF \<open>chain sz (p + m + k) ys hi\<close> this] m k
    have "y \<noteq> p" "y \<noteq> p + m - 1" "y \<noteq> p + m" "y \<noteq> p + m + k - 1"
      "y + sz y - 1 \<noteq> p" "y + sz y - 1 \<noteq> p + m - 1" "y + sz y - 1 \<noteq> p + m"
      "y + sz y - 1 \<noteq> p + m + k - 1"
      by linarith+
    then show "sz' y = sz y \<and> sz' (y + sz y - 1) = sz (y + sz y - 1)"
      by (simp add: sz'_def)
  qed
  have ne: "p \<noteq> p + m - 1" "p \<noteq> p + m" "p \<noteq> p + m + k - 1" "p + m - 1 \<noteq> p + m"
    "p + m - 1 \<noteq> p + m + k - 1"
    using m k by linarith+
  have v: "sz' p = m" "sz' (p + m - 1) = m" "sz' (p + m) = k" "sz' (p + m + k - 1) = k"
    using ne by (simp_all add: sz'_def)
  from x y v m k show ?thesis
    unfolding sz'_def [symmetric] by (auto simp: chain_append)
qed

lemma chain_grow:
  assumes c: "chain sz 0 B hi" and n: "2 \<le> n"
  shows "chain (sz(hi := n, hi + n - 1 := n)) 0 (B @ [hi]) (hi + n)"
proof -
  define sz' where "sz' = sz(hi := n, hi + n - 1 := n)"
  have x: "chain sz' 0 B hi"
  proof (rule chain_cong [OF c])
    fix x assume "x \<in> set B"
    from chain_mem(2,4) [OF c this] n
    have "x \<noteq> hi" "x \<noteq> hi + n - 1" "x + sz x - 1 \<noteq> hi" "x + sz x - 1 \<noteq> hi + n - 1"
      by linarith+
    then show "sz' x = sz x \<and> sz' (x + sz x - 1) = sz (x + sz x - 1)"
      by (simp add: sz'_def)
  qed
  have "sz' hi = n" "sz' (hi + n - 1) = n" using n by (simp_all add: sz'_def)
  with x n show ?thesis
    unfolding sz'_def [symmetric] by (simp add: chain_snoc)
qed

lemma morecore_inv:
  assumes ve: "valid_env e" and inv: "heap_inv e st B Fs A" and all: "set B = Fs \<union> A"
    and n2: "2 \<le> nu0" and nb: "nu0 * hsize e < SIZE_LIMIT"
    and nu: "nu = (if nu0 < pagesize e div hsize e then pagesize e div hsize e else nu0)"
  shows "maxheap e < brk st + nu * hsize e \<Longrightarrow> morecore e st nu0 = Inr (None, st)"
    and "brk st + nu * hsize e \<le> maxheap e \<Longrightarrow>
         \<exists>st' B' Fs' q nb. morecore e st nu0 = Inr (Some q, st') \<and> heap_inv e st' B' Fs' A \<and>
           set B' = Fs' \<union> A \<and> freep st' = Some q \<and> s_ptr st' q = Some nb \<and> nb \<in> Fs' \<and>
           nu0 \<le> s_size st' nb \<and> errno st' = errno st \<and> bytes st' = bytes st"
proof -
  note d = heap_invD [OF inv]
  from ve have H: "0 < hsize e" and pg: "pagesize e < SIZE_LIMIT"
    by (auto simp: valid_env_def)
  have "(pagesize e div hsize e) * hsize e \<le> pagesize e" by simp
  then have "(pagesize e div hsize e) * hsize e < SIZE_LIMIT" using pg by (rule le_less_trans)
  with nb have "nu * hsize e < SIZE_LIMIT" by (simp add: nu)
  then have mb: "mm_bytes e nu = nu * hsize e" by (simp add: mm_bytes_def)
  have nu2: "2 \<le> nu" and nu0: "nu0 \<le> nu" using n2 by (auto simp: nu)
  have mc: "morecore e st nu0 =
      (case mem_sbrk e st (nu * hsize e) of
         None \<Rightarrow> Inr (None, st)
       | Some (p, st1) \<Rightarrow>
          (case mm_free e (mm_setSize st1 (p div hsize e) nu) (Some (p div hsize e + 1)) of
             Inl f \<Rightarrow> Inl f
           | Inr st3 \<Rightarrow> Inr (freep st3, st3)))"
    unfolding morecore_def Let_def mem_pagesize_def nu [symmetric] mb by simp
  show "morecore e st nu0 = Inr (None, st)" if "maxheap e < brk st + nu * hsize e"
    using that by (simp add: mc mem_sbrk_def)
  show "\<exists>st' B' Fs' q nb. morecore e st nu0 = Inr (Some q, st') \<and> heap_inv e st' B' Fs' A \<and>
           set B' = Fs' \<union> A \<and> freep st' = Some q \<and> s_ptr st' q = Some nb \<and> nb \<in> Fs' \<and>
           nu0 \<le> s_size st' nb \<and> errno st' = errno st \<and> bytes st' = bytes st"
    if ok: "brk st + nu * hsize e \<le> maxheap e"
  proof -
    define hi where "hi = heap_units e st"
    define st1 where "st1 = st\<lparr>brk := brk st + nu * hsize e\<rparr>"
    define st2 where "st2 = mm_setSize st1 hi nu"
    have sb: "mem_sbrk e st (nu * hsize e) = Some (brk st, st1)"
      using ok by (simp add: mem_sbrk_def st1_def)
    have hi: "brk st div hsize e = hi" by (simp add: hi_def heap_units_def)
    have mc': "morecore e st nu0 =
        (case mm_free e st2 (Some (hi + 1)) of Inl f \<Rightarrow> Inl f | Inr st3 \<Rightarrow> Inr (freep st3, st3))"
      by (simp add: mc sb hi st2_def)
    have bk2: "brk st2 = (hi + nu) * hsize e"
      using d(1) by (simp add: st2_def st1_def hi_def algebra_simps)
    have hu2: "heap_units e st2 = hi + nu"
      using H by (simp add: heap_units_def bk2)
    have sz2: "s_size st2 = (s_size st)(hi := nu, hi + nu - 1 := nu)"
      by (simp add: st2_def st1_def)
    have pt2: "s_ptr st2 = s_ptr st" and fp2: "freep st2 = freep st"
      and er2: "errno st2 = errno st" and by2: "bytes st2 = bytes st"
      by (simp_all add: st2_def st1_def)
    have hiB: "hi \<notin> set B" using top_not_block [OF inv] by (simp add: hi_def)
    have keep: "s_size st2 b = s_size st b \<and> b + s_size st b - 1 \<noteq> hi \<and>
                b + s_size st b - 1 \<noteq> hi + nu - 1 \<and> b + s_size st b \<noteq> hi + nu" if "b \<in> set B" for b
    proof -
      from chain_mem(2,4) [OF d(3) that] nu2
      have "b \<noteq> hi" "b \<noteq> hi + nu - 1" "b + s_size st b - 1 \<noteq> hi"
        "b + s_size st b - 1 \<noteq> hi + nu - 1" "b + s_size st b \<noteq> hi + nu"
        unfolding hi_def by linarith+
      then show ?thesis by (simp add: sz2)
    qed
    have inv2: "heap_inv e st2 (B @ [hi]) Fs A"
    proof (rule heap_inv_change [OF inv])
      show "brk st2 = heap_units e st2 * hsize e" by (simp add: hu2 bk2)
      show "brk st2 \<le> maxheap e" using ok d(1) by (simp add: bk2 hi_def algebra_simps)
      show "chain (s_size st2) 0 (B @ [hi]) (heap_units e st2)"
        unfolding hu2 sz2 using chain_grow [OF d(3) nu2] by (simp add: hi_def)
      show "Fs \<subseteq> set (B @ [hi])" "A \<subseteq> set (B @ [hi])" "Fs \<inter> A = {}"
        using d(4,5,6) by auto
      show "s_ptr st2 b = None" if "b \<in> A" for b
        using d(7) [OF that] by (simp add: pt2)
      show "s_ptr st2 b = s_ptr st b" if "b \<in> Fs" for b
        by (simp add: pt2)
      show "s_ptr st2 (b + s_size st2 b - 1) = s_ptr st (b + s_size st b - 1)" if "b \<in> Fs" for b
        using keep [of b] that d(4) by (auto simp: pt2)
      show "case freep st2 of None \<Rightarrow> Fs = {} | Some f \<Rightarrow> f \<in> Fs"
        using d(9) by (simp add: fp2)
      show "b + s_size st2 b \<notin> Fs" if "b \<in> Fs" for b
        using keep [of b] that d(4) d(10) [OF that] by auto
    qed
    have all2: "set (B @ [hi]) = insert hi (Fs \<union> A)" using all by simp
    from hiB all have hF: "hi \<notin> Fs" and hA: "hi \<notin> A" by auto
    from free_inv [OF ve inv2 all2 hF hA] obtain st' B' Fs' q nb where
      f: "mm_free e st2 (Some (hi + 1)) = Inr st'" "heap_inv e st' B' Fs' A"
        "set B' = Fs' \<union> A" "freep st' = Some q" "s_ptr st' q = Some nb" "nb \<in> Fs'"
        "s_size st2 hi \<le> s_size st' nb" "errno st' = errno st2" "bytes st' = bytes st2"
      by blast
    have "s_size st2 hi = nu" using nu2 by (auto simp: sz2)
    with f(7) nu0 have "nu0 \<le> s_size st' nb" by simp
    moreover have "morecore e st nu0 = Inr (Some q, st')"
      unfolding mc' f(1) by (simp add: f(4))
    ultimately show ?thesis using f er2 by2 by auto
  qed
qed

lemma found_split_state:
  assumes sz: "s_size st p = m + nunits" and m: "2 \<le> m" and n: "0 < nunits"
    and lim: "nunits + 1 < SIZE_LIMIT"
  shows "\<exists>st'. mm_malloc_found st p nunits = Inr (Some (p + m + 1), st') \<and>
     s_size st' = (s_size st)(p := m, p + m - 1 := m, p + m := nunits, p + m + nunits - 1 := nunits) \<and>
     s_ptr st' = (s_ptr st)(p + m - 1 := mm_prev st p, p := mm_next st p, p + m := None,
                            p + m + nunits - 1 := None) \<and>
     freep st' = mm_prev st p \<and> brk st' = brk st \<and> errno st' = errno st \<and> bytes st' = bytes st"
proof -
  have neq: "\<not> (s_size st p = nunits \<or> s_size st p = (nunits + 1) mod SIZE_LIMIT)"
    using sz m lim by simp
  have d: "mm_size st p - nunits = m" by (simp add: mm_size_def sz)
  define st1 where "st1 = mm_setSize st p m"
  define st2 where "st2 = mm_setPrev st1 p (mm_prev st p)"
  define st3 where "st3 = mm_setNext st2 p (mm_next st p)"
  define st4 where "st4 = mm_setSize st3 (p + m) nunits"
  define st5 where "st5 = mm_setNext st4 (p + m) None"
  define st6 where "st6 = mm_setPrev st5 (p + m) None"
  have s1: "s_size st1 = (s_size st)(p := m, p + m - 1 := m)"
    by (simp add: st1_def)
  have p1: "s_size st1 p = m" using m by (simp add: s1)
  have s3: "s_size st3 = s_size st1" by (simp add: st3_def st2_def)
  have q3: "s_ptr st3 = (s_ptr st)(p + m - 1 := mm_prev st p, p := mm_next st p)"
    by (simp add: st3_def st2_def p1) (simp add: st1_def)
  have sz3: "mm_size st3 p = m" by (simp add: mm_size_def s3 p1)
  have s4: "s_size st4 = (s_size st)(p := m, p + m - 1 := m, p + m := nunits, p + m + nunits - 1 := nunits)"
    by (simp add: st4_def s3 s1)
  have p4: "s_size st4 (p + m) = nunits" using n by (simp add: s4)
  have s6: "s_size st6 = s_size st4" by (simp add: st6_def st5_def)
  have q6: "s_ptr st6 = (s_ptr st)(p + m - 1 := mm_prev st p, p := mm_next st p, p + m := None,
                            p + m + nunits - 1 := None)"
    by (simp add: st6_def st5_def p4) (simp add: st4_def q3)
  have rest: "brk st6 = brk st" "errno st6 = errno st" "bytes st6 = bytes st"
    by (simp_all add: st6_def st5_def st4_def st3_def st2_def st1_def)
  have "mm_malloc_found st p nunits = Inr (Some (p + m + 1), st6\<lparr>freep := mm_prev st p\<rparr>)"
    unfolding mm_malloc_found_def Let_def d
    unfolding st1_def [symmetric] st2_def [symmetric] st3_def [symmetric] sz3
      st4_def [symmetric] st5_def [symmetric] st6_def [symmetric]
    using neq by (simp add: mm_payload_def)
  then show ?thesis
    using s6 s4 q6 rest by simp
qed

lemma found_inv:
  assumes ve: "valid_env e" and inv: "heap_inv e st B Fs A" and all: "set B = Fs \<union> A"
    and p: "p \<in> Fs" and fit: "nunits \<le> s_size st p" and n2: "2 \<le> nunits"
  shows "\<exists>st' B' Fs' b'. mm_malloc_found st p nunits = Inr (Some (b' + 1), st') \<and>
           heap_inv e st' B' Fs' (insert b' A) \<and> set B' = Fs' \<union> insert b' A \<and> b' \<notin> A \<and>
           nunits \<le> s_size st' b' \<and> s_size st' b' \<le> nunits + 1 \<and>
           brk st' = brk st \<and> errno st' = errno st \<and> bytes st' = bytes st"
proof -
  note d = heap_invD [OF inv]
  from p d(4) have pB: "p \<in> set B" by auto
  note pb = block_bound [OF ve inv pB]
  from pb(2) heap_units_bound3 [OF ve inv] fit have lim: "nunits + 1 < SIZE_LIMIT"
    by linarith
  from p d(6) have pA: "p \<notin> A" by auto
  show ?thesis
  proof (cases "s_size st p = nunits \<or> s_size st p = nunits + 1")
    case True
    from unlink_inv [OF inv p] obtain st2 where
      u: "mm_unlink (if freep st = Some p then st\<lparr>freep := mm_prev st p\<rparr> else st) p = Inr st2"
      and inv2: "heap_inv e st2 B (Fs - {p}) A"
      and r: "s_size st2 = s_size st" "brk st2 = brk st" "s_ptr st2 p = None"
        "errno st2 = errno st" "bytes st2 = bytes st"
      by blast
    have res: "mm_malloc_found st p nunits = Inr (Some (p + 1), st2)"
      using True lim u by (auto simp: mm_malloc_found_def Let_def mm_payload_def)
    have "heap_inv e st2 B (Fs - {p}) (insert p A)"
      using heap_inv_alloc [OF inv2 pB _ r(3)] by simp
    moreover have "set B = (Fs - {p}) \<union> insert p A" using all p by auto
    moreover have "s_size st2 p \<le> nunits + 1" using True r(1) by auto
    ultimately show ?thesis using res r fit pA by auto
  next
    case False
    define m where "m = s_size st p - nunits"
    from False fit have sz: "s_size st p = m + nunits" and m2: "2 \<le> m"
      by (auto simp: m_def)
    from n2 have n0: "0 < nunits" by simp
    from found_split_state [OF sz m2 n0 lim] obtain st' where
      res: "mm_malloc_found st p nunits = Inr (Some (p + m + 1), st')"
      and sz': "s_size st' = (s_size st)(p := m, p + m - 1 := m, p + m := nunits,
                   p + m + nunits - 1 := nunits)"
      and pt': "s_ptr st' = (s_ptr st)(p + m - 1 := mm_prev st p, p := mm_next st p,
                   p + m := None, p + m + nunits - 1 := None)"
      and fp': "freep st' = mm_prev st p"
      and r: "brk st' = brk st" "errno st' = errno st" "bytes st' = bytes st"
      by blast
    from chain_split_mem [OF d(3) pB] obtain xs ys where B: "B = xs @ p # ys" by blast
    from ring_prev [OF d(8) p] obtain pv where
      pv: "pv \<in> Fs" "s_ptr st (p + s_size st p - 1) = Some pv" by auto
    have ne: "p \<noteq> p + m - 1" "p \<noteq> p + m" "p \<noteq> p + m + nunits - 1" "p + m - 1 \<noteq> p + m"
      "p + m - 1 \<noteq> p + m + nunits - 1" "p + m + nunits - 1 = p + s_size st p - 1"
      using m2 n2 sz by linarith+
    have inside: "p + m \<notin> set B"
    proof
      assume a: "p + m \<in> set B"
      from m2 have "p + m \<noteq> p" by simp
      from chain_disj [OF d(3) a pB this] chain_mem(2) [OF d(3) a] sz n2 m2
      show False by linarith
    qed
    have keep: "s_size st' b = s_size st b \<and> s_ptr st' b = s_ptr st b \<and>
                s_ptr st' (b + s_size st b - 1) = s_ptr st (b + s_size st b - 1)"
      if "b \<in> set B" "b \<noteq> p" for b
    proof -
      from chain_disj [OF d(3) that(1) pB that(2)] chain_mem(2) [OF d(3) that(1)] sz m2 n2
      have "b \<noteq> p" "b \<noteq> p + m - 1" "b \<noteq> p + m" "b \<noteq> p + m + nunits - 1"
        "b + s_size st b - 1 \<noteq> p" "b + s_size st b - 1 \<noteq> p + m - 1"
        "b + s_size st b - 1 \<noteq> p + m" "b + s_size st b - 1 \<noteq> p + m + nunits - 1"
        by linarith+
      then show ?thesis by (simp add: sz' pt')
    qed
    have sp: "s_size st' p = m" using ne by (simp add: sz')
    have inv': "heap_inv e st' (xs @ p # (p + m) # ys) Fs (insert (p + m) A)"
    proof (rule heap_inv_change [OF inv])
      show "brk st' = heap_units e st' * hsize e" "brk st' \<le> maxheap e"
        using d(1,2) by (simp_all add: r heap_units_def)
      show "chain (s_size st') 0 (xs @ p # (p + m) # ys) (heap_units e st')"
        using chain_split [OF d(3) [unfolded B] sz m2 n2]
        by (simp add: sz' heap_units_def r)
      show "Fs \<subseteq> set (xs @ p # (p + m) # ys)" using d(4) B by auto
      show "insert (p + m) A \<subseteq> set (xs @ p # (p + m) # ys)" using d(5) B by auto
      show "Fs \<inter> insert (p + m) A = {}" using d(4,6) inside by auto
      show "s_ptr st' b = None" if "b \<in> insert (p + m) A" for b
      proof (cases "b = p + m")
        case True
        then show ?thesis using ne m2 n2 by (simp add: pt')
      next
        case False
        with that have bA: "b \<in> A" by simp
        with d(5) pA have "b \<in> set B" "b \<noteq> p" by auto
        from keep [OF this] d(7) [OF bA] show ?thesis by simp
      qed
      show "s_ptr st' b = s_ptr st b" if "b \<in> Fs" for b
      proof (cases "b = p")
        case True
        then show ?thesis using ne by (simp add: pt' mm_next_def)
      next
        case False
        with that d(4) keep [of b] show ?thesis by auto
      qed
      show "s_ptr st' (b + s_size st' b - 1) = s_ptr st (b + s_size st b - 1)" if "b \<in> Fs" for b
      proof (cases "b = p")
        case True
        then show ?thesis using ne by (simp add: sp pt' mm_prev_def mm_footer_def)
      next
        case False
        with that d(4) keep [of b] show ?thesis by auto
      qed
      show "case freep st' of None \<Rightarrow> Fs = {} | Some f \<Rightarrow> f \<in> Fs"
        using pv by (simp add: fp' mm_prev_def mm_footer_def)
      show "b + s_size st' b \<notin> Fs" if "b \<in> Fs" for b
      proof (cases "b = p")
        case True
        then show ?thesis using inside d(4) by (auto simp: sp)
      next
        case False
        with that d(4) keep [of b] d(10) [OF that] show ?thesis by auto
      qed
    qed
    have "set (xs @ p # (p + m) # ys) = Fs \<union> insert (p + m) A" using all B by auto
    moreover have "p + m \<notin> A" using inside d(5) by auto
    moreover have "nunits \<le> s_size st' (p + m)" using ne n2 by (simp add: sz')
    moreover have "s_size st' (p + m) \<le> nunits + 1" using ne n2 by (simp add: sz')
    ultimately show ?thesis using res inv' r by blast
  qed
qed

lemma after_grow:
  assumes ve: "valid_env e" and inv1: "heap_inv e st1 B1 Fs1 A" and all1: "set B1 = Fs1 \<union> A"
    and q: "freep st1 = Some q" and nb: "s_ptr st1 q = Some nb" and nbF: "nb \<in> Fs1"
    and fit: "nunits \<le> s_size st1 nb" and n2: "2 \<le> nunits" and f: "f \<in> Fs1"
  shows "\<exists>st' B' Fs' b'. malloc_loop e (st1\<lparr>freep := Some f\<rparr>) nb nunits =
             Some (Inr (Some (b' + 1), st')) \<and>
           heap_inv e st' B' Fs' (insert b' A) \<and> set B' = Fs' \<union> insert b' A \<and> b' \<notin> A \<and>
           nunits \<le> s_size st' b' \<and> s_size st' b' \<le> nunits + 1 \<and>
           errno st' = errno st1 \<and> bytes st' = bytes st1"
proof -
  define st2 where "st2 = st1\<lparr>freep := Some f\<rparr>"
  have inv2: "heap_inv e st2 B1 Fs1 A"
    unfolding st2_def by (rule heap_inv_freep [OF inv1 f])
  have fit2: "nunits \<le> s_size st2 nb" using fit by (simp add: st2_def)
  from found_inv [OF ve inv2 all1 nbF fit2 n2] obtain st' B' Fs' b' where
    r: "mm_malloc_found st2 nb nunits = Inr (Some (b' + 1), st')"
      "heap_inv e st' B' Fs' (insert b' A)" "set B' = Fs' \<union> insert b' A" "b' \<notin> A"
      "nunits \<le> s_size st' b'" "s_size st' b' \<le> nunits + 1" "errno st' = errno st2"
      "bytes st' = bytes st2"
    by blast
  have "malloc_loop e st2 nb nunits = Some (mm_malloc_found st2 nb nunits)"
    using fit2 by (subst malloc_loop.simps) simp
  with r show ?thesis
    unfolding st2_def [symmetric] by (auto simp: st2_def)
qed

lemma loop_freep:
  assumes ve: "valid_env e" and inv: "heap_inv e st B Fs A" and all: "set B = Fs \<union> A"
    and n2: "2 \<le> nunits" and nb: "nunits * hsize e < SIZE_LIMIT"
    and fp: "freep st = Some p" and nofit: "\<not> nunits \<le> s_size st p"
  shows "\<exists>r st'. malloc_loop e st p nunits = Some (Inr (r, st')) \<and>
           malloc_post e st Fs A nunits r st'"
proof -
  have lp: "malloc_loop e st p nunits =
      (case morecore e st nunits of
         Inl f \<Rightarrow> Some (Inl f)
       | Inr (None, st1) \<Rightarrow> Some (Inr (None, st1\<lparr>errno := ENOMEM\<rparr>))
       | Inr (Some q, st1) \<Rightarrow>
          (let st2 = st1\<lparr>freep := mm_prev st1 q\<rparr>
           in (case mm_next st2 q of
                 None \<Rightarrow> Some (Inl (NullDeref, st2))
               | Some r \<Rightarrow> malloc_loop e st2 r nunits)))"
    using nofit fp by (subst malloc_loop.simps) simp
  note mc = morecore_inv [OF ve inv all n2 nb grow_units_def [of e nunits]]
  show ?thesis
  proof (cases "brk st + grow_units e nunits * hsize e \<le> maxheap e")
    case False
    then have "morecore e st nunits = Inr (None, st)" using mc(1) by simp
    with False nofit fp show ?thesis by (simp add: lp malloc_post_def)
  next
    case True
    from mc(2) [OF True] obtain st1 B1 Fs1 q nb where
      m: "morecore e st nunits = Inr (Some q, st1)" "heap_inv e st1 B1 Fs1 A"
        "set B1 = Fs1 \<union> A" "freep st1 = Some q" "s_ptr st1 q = Some nb" "nb \<in> Fs1"
        "nunits \<le> s_size st1 nb" "bytes st1 = bytes st" "errno st1 = errno st"
      by blast
    note d1 = heap_invD [OF m(2)]
    from d1(9) m(4) have qF: "q \<in> Fs1" by simp
    from ring_prev [OF d1(8) qF] obtain pq where
      pq: "pq \<in> Fs1" "mm_prev st1 q = Some pq" by (auto simp: mm_prev_def mm_footer_def)
    from after_grow [OF ve m(2,3,4,5,6,7) n2 pq(1)] obtain st' B' Fs' b' where
      r: "malloc_loop e (st1\<lparr>freep := Some pq\<rparr>) nb nunits = Some (Inr (Some (b' + 1), st'))"
        "heap_inv e st' B' Fs' (insert b' A)" "set B' = Fs' \<union> insert b' A" "b' \<notin> A"
        "nunits \<le> s_size st' b'" "s_size st' b' \<le> nunits + 1" "errno st' = errno st1"
        "bytes st' = bytes st1"
      by blast
    have "malloc_loop e st p nunits = Some (Inr (Some (b' + 1), st'))"
      using m(1,5) pq(2) r(1) by (simp add: lp mm_next_def)
    with r m(8,9) True show ?thesis
      unfolding malloc_post_def by auto
  qed
qed

lemma loop_inv:
  assumes ve: "valid_env e" and inv: "heap_inv e st B Fs A" and all: "set B = Fs \<union> A"
    and n2: "2 \<le> nunits" and nb: "nunits * hsize e < SIZE_LIMIT"
    and fp: "freep st = Some f" and p: "p \<in> Fs"
  shows "\<exists>r st'. malloc_loop e st p nunits = Some (Inr (r, st')) \<and>
           malloc_post e st Fs A nunits r st'"
proof -
  note d = heap_invD [OF inv]
  from d(9) fp have fF: "f \<in> Fs" by simp
  have fitcase: "\<exists>r st'. malloc_loop e st y nunits = Some (Inr (r, st')) \<and>
           malloc_post e st Fs A nunits r st'"
    if y: "y \<in> Fs" and fit: "nunits \<le> s_size st y" for y
  proof -
    from found_inv [OF ve inv all y fit n2] obtain st' B' Fs' b' where
      r: "mm_malloc_found st y nunits = Inr (Some (b' + 1), st')"
        "heap_inv e st' B' Fs' (insert b' A)" "set B' = Fs' \<union> insert b' A" "b' \<notin> A"
        "nunits \<le> s_size st' b'" "s_size st' b' \<le> nunits + 1" "errno st' = errno st"
        "bytes st' = bytes st"
      by blast
    have "malloc_loop e st y nunits = Some (mm_malloc_found st y nunits)"
      using fit by (subst malloc_loop.simps) simp
    with r y fit show ?thesis unfolding malloc_post_def by auto
  qed
  have "(p, f) \<in> (nextrel (s_ptr st) Fs)\<^sup>*" by (rule ring_conn [OF d(8) p fF])
  then show ?thesis
  proof (induction rule: converse_rtrancl_induct)
    case base
    show ?case
    proof (cases "nunits \<le> s_size st f")
      case True
      from fitcase [OF fF True] show ?thesis .
    next
      case False
      from loop_freep [OF ve inv all n2 nb fp False] show ?thesis .
    qed
  next
    case (step y z)
    from step.hyps(1) have yF: "y \<in> Fs" and yz: "s_ptr st y = Some z"
      by (auto simp: nextrel_def)
    show ?case
    proof (cases "nunits \<le> s_size st y")
      case True
      from fitcase [OF yF True] show ?thesis .
    next
      case nofit: False
      show ?thesis
      proof (cases "y = f")
        case True
        with loop_freep [OF ve inv all n2 nb fp] nofit show ?thesis by simp
      next
        case False
        have "malloc_loop e st y nunits = malloc_loop e st z nunits"
          using nofit False fp yz by (subst malloc_loop.simps) (simp add: mm_next_def)
        with step.IH show ?thesis by simp
      qed
    qed
  qed
qed

lemma units_bounds:
  assumes ve: "valid_env e" and n: "n \<le> maxheap e"
  shows "2 \<le> mm_units e n" and "mm_units e n * hsize e < SIZE_LIMIT"
    and "n \<le> (mm_units e n - 2) * hsize e"
proof -
  from ve have H: "0 < hsize e" and m: "maxheap e + 3 * hsize e \<le> SIZE_LIMIT"
    by (auto simp: valid_env_def)
  from n m H have r: "n + 2 * hsize e < SIZE_LIMIT" by linarith
  note u = mm_units_in_range [OF H r]
  show "2 \<le> mm_units e n" by (rule u(2))
  show "n \<le> (mm_units e n - 2) * hsize e" by (rule u(3))
  have "mm_units e n * hsize e = ((n + 2 * hsize e - 1) div hsize e) * hsize e + hsize e"
    by (simp add: u(1) algebra_simps)
  also have "\<dots> \<le> (n + 2 * hsize e - 1) + hsize e"
    by (intro add_right_mono) simp
  also have "\<dots> < SIZE_LIMIT" using n m H by linarith
  finally show "mm_units e n * hsize e < SIZE_LIMIT" .
qed

lemma malloc_inv:
  assumes ve: "valid_env e" and inv: "heap_inv e st B Fs A" and all: "set B = Fs \<union> A"
    and n: "n \<le> maxheap e"
  shows "\<exists>r st'. mm_malloc e st n = Some (Inr (r, st')) \<and>
           malloc_post e st Fs A (mm_units e n) r st'"
proof -
  note d = heap_invD [OF inv]
  note ub = units_bounds [OF ve n]
  define nunits where "nunits = mm_units e n"
  note ub' = ub [folded nunits_def]
  show ?thesis
  proof (cases "freep st")
    case None
    have mm: "mm_malloc e st n =
        (case morecore e st nunits of
           Inl f \<Rightarrow> Some (Inl f)
         | Inr (None, st1) \<Rightarrow> Some (Inr (None, st1\<lparr>errno := ENOMEM\<rparr>))
         | Inr (Some p, st1) \<Rightarrow> malloc_start e (st1\<lparr>freep := Some p\<rparr>) nunits)"
      unfolding mm_malloc_def Let_def nunits_def using None by simp
    note mc = morecore_inv [OF ve inv all ub'(1,2) grow_units_def [of e nunits]]
    show ?thesis
    proof (cases "brk st + grow_units e nunits * hsize e \<le> maxheap e")
      case False
      then have "morecore e st nunits = Inr (None, st)" using mc(1) by simp
      with False None show ?thesis by (simp add: mm malloc_post_def nunits_def)
    next
      case True
      from mc(2) [OF True] obtain st1 B1 Fs1 q nb where
        m: "morecore e st nunits = Inr (Some q, st1)" "heap_inv e st1 B1 Fs1 A"
          "set B1 = Fs1 \<union> A" "freep st1 = Some q" "s_ptr st1 q = Some nb" "nb \<in> Fs1"
          "nunits \<le> s_size st1 nb" "bytes st1 = bytes st" "errno st1 = errno st"
        by blast
      note d1 = heap_invD [OF m(2)]
      from d1(9) m(4) have qF: "q \<in> Fs1" by simp
      from after_grow [OF ve m(2,3,4,5,6,7) ub'(1) qF] obtain st' B' Fs' b' where
        r: "malloc_loop e (st1\<lparr>freep := Some q\<rparr>) nb nunits = Some (Inr (Some (b' + 1), st'))"
          "heap_inv e st' B' Fs' (insert b' A)" "set B' = Fs' \<union> insert b' A" "b' \<notin> A"
          "nunits \<le> s_size st' b'" "s_size st' b' \<le> nunits + 1" "errno st' = errno st1"
          "bytes st' = bytes st1"
        by blast
      have "malloc_start e (st1\<lparr>freep := Some q\<rparr>) nunits =
          malloc_loop e (st1\<lparr>freep := Some q\<rparr>) nb nunits"
        using m(5) by (simp add: malloc_start_def mm_next_def)
      with r(1) m(1) have "mm_malloc e st n = Some (Inr (Some (b' + 1), st'))"
        by (simp add: mm)
      with r m(8,9) True show ?thesis
        unfolding malloc_post_def nunits_def by auto
    qed
  next
    case (Some f)
    with d(9) have fF: "f \<in> Fs" by simp
    from ring_next [OF d(8) fF] obtain p where p: "p \<in> Fs" "s_ptr st f = Some p" by auto
    have "mm_malloc e st n = malloc_loop e st p nunits"
      unfolding mm_malloc_def Let_def nunits_def
      using Some p(2) by (simp add: malloc_start_def mm_next_def)
    with loop_inv [OF ve inv all ub'(1,2) Some p(1)] show ?thesis
      by (simp add: nunits_def)
  qed
qed

subsection \<open>The invariant along a sequence of calls\<close>

lemma heap_ok_init: "heap_ok e (mm_init st) {}"
proof -
  have "heap_inv e (mm_init st) [] {} {}"
    by (simp add: heap_inv_def heap_units_def mm_init_def mem_init_def)
  then show ?thesis unfolding heap_ok_def by fastforce
qed

lemma heap_ok_malloc:
  assumes ve: "valid_env e" and ok: "heap_ok e st L" and n: "n \<le> maxheap e"
  shows "\<exists>r st'. mm_malloc e st n = Some (Inr (r, st')) \<and>
           (case r of
              None \<Rightarrow> st' = st\<lparr>errno := ENOMEM\<rparr> \<and> heap_ok e st' L
            | Some p \<Rightarrow> p \<notin> L \<and> heap_ok e st' (insert p L))"
proof -
  from ok obtain B Fs A where
    inv: "heap_inv e st B Fs A" and all: "set B = Fs \<union> A" and L: "L = mm_payload ` A"
    unfolding heap_ok_def by blast
  from malloc_inv [OF ve inv all n] obtain r st' where
    m: "mm_malloc e st n = Some (Inr (r, st'))"
    and post: "malloc_post e st Fs A (mm_units e n) r st'"
    by blast
  show ?thesis
  proof (cases r)
    case None
    with post have "st' = st\<lparr>errno := ENOMEM\<rparr>" by (auto simp: malloc_post_def)
    moreover from heap_inv_errno [OF inv] all L have "heap_ok e (st\<lparr>errno := ENOMEM\<rparr>) L"
      unfolding heap_ok_def by blast
    ultimately show ?thesis using m None by simp
  next
    case (Some p)
    with post obtain b' B' Fs' where
      b: "p = b' + 1" "heap_inv e st' B' Fs' (insert b' A)" "set B' = Fs' \<union> insert b' A"
        "b' \<notin> A"
      by (auto simp: malloc_post_def)
    from b(1,4) L have "p \<notin> L" by (auto simp: mm_payload_def)
    moreover have "insert p L = mm_payload ` insert b' A"
      using b(1) L by (simp add: mm_payload_def)
    with b(2,3) have "heap_ok e st' (insert p L)" unfolding heap_ok_def by blast
    ultimately show ?thesis using m Some by simp
  qed
qed

lemma heap_ok_free:
  assumes ve: "valid_env e" and ok: "heap_ok e st L" and p: "p \<in> L"
  shows "\<exists>st'. mm_free e st (Some p) = Inr st' \<and> heap_ok e st' (L - {p})"
proof -
  from ok obtain B Fs A where
    inv: "heap_inv e st B Fs A" and all: "set B = Fs \<union> A" and L: "L = mm_payload ` A"
    unfolding heap_ok_def by blast
  from p L obtain b where b: "b \<in> A" "p = b + 1" by (auto simp: mm_payload_def)
  note d = heap_invD [OF inv]
  have inv': "heap_inv e st B Fs (A - {b})" by (rule heap_inv_drop [OF inv])
  have all': "set B = insert b (Fs \<union> (A - {b}))" using all b(1) by auto
  have bF: "b \<notin> Fs" using d(6) b(1) by auto
  from free_inv [OF ve inv' all' bF] obtain st' B' Fs' where
    f: "mm_free e st (Some (b + 1)) = Inr st'" "heap_inv e st' B' Fs' (A - {b})"
      "set B' = Fs' \<union> (A - {b})"
    by blast
  have "L - {p} = mm_payload ` (A - {b})"
    using L b by (auto simp: mm_payload_def)
  with f show ?thesis unfolding heap_ok_def b(2) by blast
qed

lemma heap_inv_payload:
  assumes inv: "heap_inv e st B Fs A"
    and bk: "brk st' = brk st" and fp: "freep st' = freep st"
    and ch: "\<And>u. s_ptr st' u \<noteq> s_ptr st u \<or> s_size st' u \<noteq> s_size st u \<Longrightarrow>
               \<exists>a\<in>A. a < u \<and> u + 1 < a + s_size st a"
  shows "heap_inv e st' B Fs A"
proof -
  note d = heap_invD [OF inv]
  have inner: "s_ptr st' u = s_ptr st u \<and> s_size st' u = s_size st u"
    if b: "b \<in> set B" and u: "u = b \<or> u = b + s_size st b - 1" for u b
  proof (rule ccontr)
    assume "\<not> (s_ptr st' u = s_ptr st u \<and> s_size st' u = s_size st u)"
    then have "s_ptr st' u \<noteq> s_ptr st u \<or> s_size st' u \<noteq> s_size st u" by simp
    from ch [OF this] obtain a where a: "a \<in> A" "a < u" "u + 1 < a + s_size st a" by blast
    from a(1) d(5) have aB: "a \<in> set B" by auto
    show False
    proof (cases "b = a")
      case True
      with a u show False by auto
    next
      case False
      with d(11) b aB have "2 \<le> s_size st b"
        "b + s_size st b \<le> a \<or> a + s_size st a \<le> b"
        unfolding sep_def by blast+
      with a u show False by auto
    qed
  qed
  have hd: "s_size st' b = s_size st b" "s_ptr st' b = s_ptr st b"
    "s_size st' (b + s_size st b - 1) = s_size st (b + s_size st b - 1)"
    "s_ptr st' (b + s_size st b - 1) = s_ptr st (b + s_size st b - 1)"
    if "b \<in> set B" for b
    using inner [OF that, of b] inner [OF that, of "b + s_size st b - 1"] by simp_all
  have hu: "heap_units e st' = heap_units e st" by (simp add: heap_units_def bk)
  show ?thesis
  proof (rule heap_inv_change [OF inv])
    show "brk st' = heap_units e st' * hsize e" "brk st' \<le> maxheap e"
      using d(1,2) by (simp_all add: hu bk)
    show "chain (s_size st') 0 B (heap_units e st')"
      unfolding hu
    proof (rule chain_cong [OF d(3)])
      fix b
      assume "b \<in> set B"
      from hd(1,3) [OF this]
      show "s_size st' b = s_size st b \<and>
            s_size st' (b + s_size st b - 1) = s_size st (b + s_size st b - 1)"
        by (rule conjI)
    qed
    show "Fs \<subseteq> set B" "A \<subseteq> set B" "Fs \<inter> A = {}"
      using d(4,5,6) .
    show "s_ptr st' b = None" if "b \<in> A" for b
      using that d(5) d(7) [OF that] hd(2) [of b] by auto
    show "s_ptr st' b = s_ptr st b" if "b \<in> Fs" for b
      using that d(4) hd(2) [of b] by auto
    show "s_ptr st' (b + s_size st' b - 1) = s_ptr st (b + s_size st b - 1)"
      if "b \<in> Fs" for b
      using that d(4) hd(1,4) [of b] by auto
    show "case freep st' of None \<Rightarrow> Fs = {} | Some f \<Rightarrow> f \<in> Fs"
      using d(9) by (simp add: fp)
    show "b + s_size st' b \<notin> Fs" if "b \<in> Fs" for b
      using that d(4) d(10) [OF that] hd(1) [of b] by auto
  qed
qed

lemma heap_ok_store:
  assumes ok: "heap_ok e st L"
    and p: "p \<in> L" "p \<le> u" "u + 1 < mm_block p + mm_size st (mm_block p)"
  shows "heap_ok e (st\<lparr>s_ptr := (s_ptr st)(u := x), s_size := (s_size st)(u := n)\<rparr>) L"
proof -
  let ?st = "st\<lparr>s_ptr := (s_ptr st)(u := x), s_size := (s_size st)(u := n)\<rparr>"
  from ok obtain B Fs A where inv: "heap_inv e st B Fs A"
    and set: "set B = Fs \<union> A" and L: "L = mm_payload ` A"
    unfolding heap_ok_def by blast
  from p(1) L obtain a where a: "a \<in> A" "p = a + 1" by (auto simp: mm_payload_def)
  from a p have u: "a < u" "u + 1 < a + s_size st a"
    by (simp_all add: mm_block_def mm_size_def)
  have "heap_inv e ?st B Fs A"
  proof (rule heap_inv_payload [OF inv])
    show "brk ?st = brk st" "freep ?st = freep st" by simp_all
    fix v
    assume "s_ptr ?st v \<noteq> s_ptr st v \<or> s_size ?st v \<noteq> s_size st v"
    then have "v = u" by (auto split: if_splits)
    with a(1) u show "\<exists>a\<in>A. a < v \<and> v + 1 < a + s_size st a" by blast
  qed
  with set L show ?thesis unfolding heap_ok_def by blast
qed

lemma run_ok:
  "valid_env e \<Longrightarrow> heap_ok e st L \<Longrightarrow>
   run e cs L st \<noteq> Failed \<and> (\<forall>L' st'. run e cs L st = Done L' st' \<longrightarrow> heap_ok e st' L')"
proof (induction e cs L st rule: run.induct)
  case (1 e L st)
  then show ?case by simp
next
  case (2 e n cs L st)
  note ve = "2.prems"(1)
  show ?case
  proof (cases "n > maxheap e")
    case True
    then show ?thesis by simp
  next
    case False
    then have n: "n \<le> maxheap e" by simp
    from heap_ok_malloc [OF ve "2.prems"(2) n] obtain r st' where
      m: "mm_malloc e st n = Some (Inr (r, st'))"
      and c: "case r of None \<Rightarrow> st' = st\<lparr>errno := ENOMEM\<rparr> \<and> heap_ok e st' L
              | Some p \<Rightarrow> p \<notin> L \<and> heap_ok e st' (insert p L)"
      by blast
    show ?thesis
    proof (cases r)
      case None
      with c have "heap_ok e st' L" by auto
      from "2.IH"(1) [OF False m refl refl None ve this] show ?thesis
        using False m None by simp
    next
      case (Some p)
      with c have "heap_ok e st' (insert p L)" by auto
      from "2.IH"(2) [OF False m refl refl Some ve this] show ?thesis
        using False m Some by simp
    qed
  qed
next
  case (3 e cs L st)
  have "mm_free e st None = Inr st" by (simp add: mm_free_def)
  with "3.IH" [OF this "3.prems"] show ?case by simp
next
  case (4 e p cs L st)
  note ve = "4.prems"(1)
  show ?case
  proof (cases "p \<in> L")
    case False
    then show ?thesis by simp
  next
    case True
    from heap_ok_free [OF ve "4.prems"(2) True] obtain st' where
      f: "mm_free e st (Some p) = Inr st'" "heap_ok e st' (L - {p})" by blast
    from True have "\<not> p \<notin> L" by simp
    from "4.IH" [OF this f(1) ve f(2)] True f(1) show ?thesis by simp
  qed
next
  case (5 e u x n cs L st)
  note ve = "5.prems"(1)
  show ?case
  proof (cases "\<exists>p\<in>L. p \<le> u \<and> u + 1 < mm_block p + mm_size st (mm_block p)")
    case False
    then have "run e (Store u x n # cs) L st = Misuse" by (simp only: run.simps if_False)
    then show ?thesis by simp
  next
    case True
    then obtain p where "p \<in> L" "p \<le> u" "u + 1 < mm_block p + mm_size st (mm_block p)"
      by blast
    from heap_ok_store [OF "5.prems"(2) this]
    have "heap_ok e (st\<lparr>s_ptr := (s_ptr st)(u := x), s_size := (s_size st)(u := n)\<rparr>) L" .
    note ih = "5.IH" [OF True ve this]
    from True have "run e (Store u x n # cs) L st =
        run e cs L (st\<lparr>s_ptr := (s_ptr st)(u := x), s_size := (s_size st)(u := n)\<rparr>)"
      by (simp only: run.simps if_True)
    with ih show ?thesis by simp
  qed
qed

subsection \<open>The invariants after every call\<close>

lemma chain_block_list: "chain sz a B hi \<Longrightarrow> block_list sz a B hi"
proof (induction B arbitrary: a)
  case Nil
  then show ?case by simp
next
  case (Cons b bs)
  then have c: "b = a" "2 \<le> sz a" "chain sz (a + sz a) bs hi" by auto
  from chain_le [OF c(3)] c(2) have "a < hi" by simp
  with c Cons.IH [OF c(3)] show ?case by simp
qed

lemma on_free_list_iff:
  assumes inv: "heap_inv e st B Fs A"
  shows "on_free_list st b \<longleftrightarrow> b \<in> Fs"
proof
  note d = heap_invD [OF inv]
  assume "on_free_list st b"
  then obtain f where f: "freep st = Some f"
    and p: "(f, b) \<in> {(x, y). mm_next st x = Some y}\<^sup>*"
    unfolding on_free_list_def by blast
  from d(9) f have "f \<in> Fs" by simp
  with p show "b \<in> Fs"
  proof (induction rule: rtrancl_induct)
    case base
    then show ?case by simp
  next
    case (step y z)
    then have "y \<in> Fs" "s_ptr st y = Some z" by (auto simp: mm_next_def)
    with ring_next [OF d(8), of y] show ?case by auto
  qed
next
  note d = heap_invD [OF inv]
  assume b: "b \<in> Fs"
  with d(9) obtain f where f: "freep st = Some f" "f \<in> Fs"
    by (cases "freep st") auto
  have "nextrel (s_ptr st) Fs \<subseteq> {(x, y). mm_next st x = Some y}"
    by (auto simp: nextrel_def mm_next_def)
  from rtrancl_mono [OF this] ring_conn [OF d(8) f(2) b]
  have "(f, b) \<in> {(x, y). mm_next st x = Some y}\<^sup>*" by blast
  with f(1) show "on_free_list st b" unfolding on_free_list_def by blast
qed

lemma on_free_list_self:
  assumes "freep st = Some f" "mm_next st f = Some f"
  shows "on_free_list st b \<longleftrightarrow> b = f"
proof
  assume "on_free_list st b"
  with assms(1) have "(f, b) \<in> {(x, y). mm_next st x = Some y}\<^sup>*"
    unfolding on_free_list_def by simp
  then show "b = f"
  proof (induction rule: rtrancl_induct)
    case base
    show ?case by simp
  next
    case (step y z)
    with assms(2) show ?case by simp
  qed
next
  assume "b = f"
  with assms(1) show "on_free_list st b" unfolding on_free_list_def by auto
qed

lemma on_free_list_none: "freep st = None \<Longrightarrow> \<not> on_free_list st b"
  by (simp add: on_free_list_def)

lemma valid_x86_64_env: "valid_env x86_64_env"
  by (simp add: valid_env_def x86_64_env_def SIZE_LIMIT_def)

lemma run_one_alloc:
  "run x86_64_env [Allocate 1] {} (mm_init empty_state) = Done {126} one_alloc_state"
  by (simp only: run.simps one_alloc_state_reached) (simp add: x86_64_env_def)

text \<open>
  The block of the first allocation of one byte has one payload unit, 126, and the client
  may overwrite it.
\<close>

lemma run_one_store:
  "run x86_64_env [Allocate 1, Store 126 x n] {} (mm_init empty_state) =
     Done {126} (one_alloc_state\<lparr>s_ptr := (s_ptr one_alloc_state)(126 := x),
                                 s_size := (s_size one_alloc_state)(126 := n)\<rparr>)"
  by (simp only: run.simps one_alloc_state_reached)
     (simp add: x86_64_env_def one_alloc_state_def mm_block_def mm_size_def)

text \<open>
  Claim C1. Take any sequence of allocate and release calls after \<open>mm_init\<close>, with
  writes of the client into live payloads between them, in which
  every request is at most the capacity of the segment and every released pointer is live.
  No call fails or runs forever, and after the sequence the blocks found by stepping from
  the low end of the segment by the header sizes satisfy: header and footer hold the same
  size, the size is at least 2, the link of the header is non-null exactly if the block is
  reached from \<open>freep\<close> along the links (it is on the free list), and it is null exactly
  if the payload of the block is live (the block is allocated).
\<close>

theorem invariants_after_calls:
  assumes ve: "valid_env e"
  shows "run e calls {} (mm_init st0) \<noteq> Failed \<and>
    (\<forall>L st. run e calls {} (mm_init st0) = Done L st \<longrightarrow>
       (\<exists>B. block_list (s_size st) 0 B (heap_units e st) \<and>
            mem_heapsize st = heap_units e st * hsize e \<and>
            (\<forall>b\<in>set B.
               mm_size st b = mm_size st (mm_footer st b) \<and> 2 \<le> mm_size st b \<and>
               (mm_next st b \<noteq> None \<longleftrightarrow> on_free_list st b) \<and>
               (mm_payload b \<in> L \<longleftrightarrow> mm_next st b = None))))"
proof (intro conjI allI impI)
  from run_ok [OF ve heap_ok_init, of calls st0]
  show "run e calls {} (mm_init st0) \<noteq> Failed" by simp
next
  fix L st
  assume "run e calls {} (mm_init st0) = Done L st"
  with run_ok [OF ve heap_ok_init, of calls st0] have "heap_ok e st L" by simp
  then obtain B Fs A where
    inv: "heap_inv e st B Fs A" and all: "set B = Fs \<union> A" and L: "L = mm_payload ` A"
    unfolding heap_ok_def by blast
  note d = heap_invD [OF inv]
  have "\<forall>b\<in>set B.
      mm_size st b = mm_size st (mm_footer st b) \<and> 2 \<le> mm_size st b \<and>
      (mm_next st b \<noteq> None \<longleftrightarrow> on_free_list st b) \<and>
      (mm_payload b \<in> L \<longleftrightarrow> mm_next st b = None)"
  proof
    fix b assume b: "b \<in> set B"
    have ptr: "mm_next st b \<noteq> None \<longleftrightarrow> b \<in> Fs"
    proof (cases "b \<in> Fs")
      case True
      with ring_next [OF d(8) True] show ?thesis by (auto simp: mm_next_def)
    next
      case False
      with b all have "b \<in> A" by auto
      with d(7) False show ?thesis by (simp add: mm_next_def)
    qed
    have "mm_payload b \<in> L \<longleftrightarrow> b \<in> A"
      unfolding L by (auto simp: mm_payload_def)
    also have "\<dots> \<longleftrightarrow> b \<notin> Fs" using b all d(6) by auto
    finally have "mm_payload b \<in> L \<longleftrightarrow> mm_next st b = None" using ptr by auto
    with chain_mem(2,3) [OF d(3) b] ptr on_free_list_iff [OF inv, of b]
    show "mm_size st b = mm_size st (mm_footer st b) \<and> 2 \<le> mm_size st b \<and>
      (mm_next st b \<noteq> None \<longleftrightarrow> on_free_list st b) \<and>
      (mm_payload b \<in> L \<longleftrightarrow> mm_next st b = None)"
      by (simp add: mm_size_def mm_footer_def)
  qed
  with chain_block_list [OF d(3)] d(1)
  show "\<exists>B. block_list (s_size st) 0 B (heap_units e st) \<and>
            mem_heapsize st = heap_units e st * hsize e \<and>
            (\<forall>b\<in>set B.
               mm_size st b = mm_size st (mm_footer st b) \<and> 2 \<le> mm_size st b \<and>
               (mm_next st b \<noteq> None \<longleftrightarrow> on_free_list st b) \<and>
               (mm_payload b \<in> L \<longleftrightarrow> mm_next st b = None))"
    unfolding mem_heapsize_def by blast
qed

theorem invariants_after_calls_witness:
  "valid_env x86_64_env \<and>
   run x86_64_env [Allocate 1] {} (mm_init empty_state) = Done {126} one_alloc_state \<and>
   (\<exists>B. block_list (s_size one_alloc_state) 0 B (heap_units x86_64_env one_alloc_state) \<and>
        mem_heapsize one_alloc_state = heap_units x86_64_env one_alloc_state * hsize x86_64_env \<and>
        (\<forall>b\<in>set B.
           mm_size one_alloc_state b = mm_size one_alloc_state (mm_footer one_alloc_state b) \<and>
           2 \<le> mm_size one_alloc_state b \<and>
           (mm_next one_alloc_state b \<noteq> None \<longleftrightarrow> on_free_list one_alloc_state b) \<and>
           (mm_payload b \<in> {126} \<longleftrightarrow> mm_next one_alloc_state b = None)))"
  using invariants_after_calls [OF valid_x86_64_env, of "[Allocate 1]" empty_state]
    valid_x86_64_env run_one_alloc
  by simp

subsection \<open>Full coalescing\<close>

lemma hd_block:
  assumes inv: "heap_inv e st B Fs {}" and all: "set B = Fs"
  shows "(B = [] \<and> heap_units e st = 0) \<or> (B = [0] \<and> s_size st 0 = heap_units e st)"
proof (cases B)
  case Nil
  with heap_invD(3) [OF inv] show ?thesis by simp
next
  case (Cons b bs)
  note d = heap_invD [OF inv]
  from d(3) Cons have b: "b = 0" and c: "chain (s_size st) (0 + s_size st 0) bs (heap_units e st)"
    by auto
  have "bs = []"
  proof (cases bs)
    case Nil
    then show ?thesis .
  next
    case (Cons c cs)
    with c have "c = 0 + s_size st 0" by simp
    with Cons \<open>B = b # bs\<close> all b have "0 \<in> Fs" "0 + s_size st 0 \<in> Fs" by auto
    with d(10) [of 0] show ?thesis by simp
  qed
  with c Cons b show ?thesis by simp
qed

text \<open>
  Claim C2, amended. After a sequence of calls within the capacity of the segment that
  ends with every allocation released, \<open>mm_getfree\<close> returns the heap size; and if the
  segment is not empty, the free list consists of exactly one block, at the low end of the
  segment, whose size in bytes is the heap size.
\<close>

theorem full_coalescing:
  assumes ve: "valid_env e" and r: "run e calls {} (mm_init st0) = Done {} st"
  shows "mm_getfree e st = Some (mem_heapsize st) \<and>
         (0 < mem_heapsize st \<longrightarrow>
            free_list_blocks st = {0} \<and> mm_bytes e (mm_size st 0) = mem_heapsize st)"
proof -
  from run_ok [OF ve heap_ok_init, of calls st0] r have "heap_ok e st {}" by simp
  then obtain B Fs where inv: "heap_inv e st B Fs {}" and all: "set B = Fs"
    unfolding heap_ok_def by auto
  note d = heap_invD [OF inv]
  from hd_block [OF inv all] show ?thesis
  proof
    assume a: "B = [] \<and> heap_units e st = 0"
    with all d(9) have "freep st = None" by (cases "freep st") auto
    moreover from a d(1) have "brk st = 0" by simp
    ultimately show ?thesis by (simp add: mm_getfree_def mem_heapsize_def)
  next
    assume a: "B = [0] \<and> s_size st 0 = heap_units e st"
    with all have Fs: "Fs = {0}" by auto
    with d(9) have fp: "freep st = Some 0" by (cases "freep st") auto
    from ring_next [OF d(8), of 0] Fs have nx: "s_ptr st 0 = Some 0" by auto
    have "mm_bytes e (s_size st 0) = brk st"
      using a heap_units_bound(2) [OF ve inv] d(1) by (simp add: mm_bytes_def)
    moreover have "mm_getfree e st = Some (mm_bytes e (s_size st 0))"
      unfolding mm_getfree_def fp by (subst getfree_loop.simps) (simp add: nx)
    moreover have "free_list_blocks st = {0}"
      unfolding free_list_blocks_def using on_free_list_iff [OF inv] Fs by auto
    ultimately show ?thesis by (simp add: mem_heapsize_def mm_size_def)
  qed
qed

lemma run_released:
  "run x86_64_env [Allocate 1, Release (Some 126)] {} (mm_init empty_state) =
     Done {} released_state"
proof -
  have "mm_free x86_64_env one_alloc_state (Some 126) = Inr released_state"
    by (simp add: mm_defs x86_64_env_def one_alloc_state_def released_state_def fun_eq_iff)
  then show ?thesis
    by (simp only: run.simps one_alloc_state_reached) (simp add: x86_64_env_def)
qed

theorem full_coalescing_witness:
  "valid_env x86_64_env \<and>
   run x86_64_env [Allocate 1, Release (Some 126)] {} (mm_init empty_state) =
     Done {} released_state \<and>
   mm_getfree x86_64_env released_state = Some (mem_heapsize released_state) \<and>
   0 < mem_heapsize released_state \<and> free_list_blocks released_state = {0} \<and>
   mm_bytes x86_64_env (mm_size released_state 0) = mem_heapsize released_state"
proof -
  have "0 < mem_heapsize released_state"
    by (simp add: mem_heapsize_def released_state_def)
  with full_coalescing [OF valid_x86_64_env run_released] valid_x86_64_env run_released
  show ?thesis by simp
qed

text \<open>
  As stated, with exactly one block on the free list after every such sequence, the claim
  fails for a sequence that never allocates: after \<open>mm_init\<close> and a release of the null
  pointer the segment is empty and there is no block on the free list.
\<close>

theorem full_coalescing_counterexample:
  "valid_env x86_64_env \<and>
   run x86_64_env [Release None] {} (mm_init empty_state) = Done {} (mm_init empty_state) \<and>
   free_list_blocks (mm_init empty_state) = {}"
proof -
  have "run x86_64_env [Release None] {} (mm_init empty_state) = Done {} (mm_init empty_state)"
    by (simp add: mm_free_def)
  moreover have "free_list_blocks (mm_init empty_state) = {}"
    by (simp add: free_list_blocks_def on_free_list_def mm_init_def)
  ultimately show ?thesis using valid_x86_64_env by simp
qed


subsection \<open>Out of memory\<close>

lemma morecore_fail:
  "mem_sbrk e st (mm_bytes e (grow_units e nu0)) = None \<Longrightarrow> morecore e st nu0 = Inr (None, st)"
  by (simp add: morecore_def Let_def grow_units_def mem_pagesize_def)

lemma loop_fail:
  assumes inv: "heap_inv e st B Fs A" and fp: "freep st = Some f" and p: "p \<in> Fs"
    and nofit: "\<And>b. b \<in> Fs \<Longrightarrow> s_size st b < nunits"
    and fail: "mem_sbrk e st (mm_bytes e (grow_units e nunits)) = None"
  shows "malloc_loop e st p nunits = Some (Inr (None, st\<lparr>errno := ENOMEM\<rparr>))"
proof -
  note d = heap_invD [OF inv]
  from d(9) fp have fF: "f \<in> Fs" by simp
  have at_f: "malloc_loop e st f nunits = Some (Inr (None, st\<lparr>errno := ENOMEM\<rparr>))"
    using nofit [OF fF] fp morecore_fail [OF fail]
    by (subst malloc_loop.simps) simp
  have "(p, f) \<in> (nextrel (s_ptr st) Fs)\<^sup>*" by (rule ring_conn [OF d(8) p fF])
  then show ?thesis
  proof (induction rule: converse_rtrancl_induct)
    case base
    show ?case by (rule at_f)
  next
    case (step y z)
    from step.hyps(1) have yF: "y \<in> Fs" and yz: "s_ptr st y = Some z"
      by (auto simp: nextrel_def)
    show ?case
    proof (cases "y = f")
      case True
      with at_f show ?thesis by simp
    next
      case False
      have "malloc_loop e st y nunits = malloc_loop e st z nunits"
        using nofit [OF yF] False fp yz by (subst malloc_loop.simps) (simp add: mm_next_def)
      with step.IH show ?thesis by simp
    qed
  qed
qed

text \<open>
  Where the unit count of the request is right, the allocator refuses as it should: in a
  state reached by a sequence of calls, if no block on the free list has the units of the
  request and the segment provider refuses the bytes that \<open>morecore\<close> asks for,
  \<open>mm_malloc\<close> returns null, sets \<open>errno\<close> to \<open>ENOMEM\<close> and leaves the rest of the
  state, \<open>freep\<close> and the free list included, as it is.
\<close>

lemma malloc_refuses:
  assumes ve: "valid_env e" and r: "run e calls {} (mm_init st0) = Done L st"
    and nofit: "\<forall>b. on_free_list st b \<longrightarrow> mm_size st b < mm_units e n"
    and fail: "mem_sbrk e st (mm_bytes e (grow_units e (mm_units e n))) = None"
  shows "mm_malloc e st n = Some (Inr (None, st\<lparr>errno := ENOMEM\<rparr>))"
proof -
  from run_ok [OF ve heap_ok_init, of calls st0] r have "heap_ok e st L" by simp
  then obtain B Fs A where inv: "heap_inv e st B Fs A"
    unfolding heap_ok_def by auto
  note d = heap_invD [OF inv]
  show ?thesis
  proof (cases "freep st")
    case None
    then show ?thesis
      unfolding mm_malloc_def Let_def by (simp add: morecore_fail [OF fail])
  next
    case (Some f)
    with d(9) have fF: "f \<in> Fs" by simp
    from ring_next [OF d(8) fF] obtain p where p: "p \<in> Fs" "s_ptr st f = Some p" by auto
    have nf: "s_size st b < mm_units e n" if "b \<in> Fs" for b
      using nofit on_free_list_iff [OF inv, of b] that by (simp add: mm_size_def)
    have "mm_malloc e st n = malloc_loop e st p (mm_units e n)"
      unfolding mm_malloc_def Let_def
      using Some p(2) by (simp add: malloc_start_def mm_next_def)
    with loop_fail [OF inv Some p(1) nf fail] show ?thesis by simp
  qed
qed

lemma valid_one_page_env: "valid_env one_page_env"
  by (simp add: valid_env_def one_page_env_def SIZE_LIMIT_def)

lemma run_one_page:
  "run one_page_env [Allocate 1] {} (mm_init empty_state) = Done {126} one_alloc_state"
proof -
  have "mm_malloc one_page_env (mm_init empty_state) 1 = Some (Inr (Some 126, one_alloc_state))"
    by (simp add: mm_defs one_page_env_def empty_state_def one_alloc_state_def mm_init_def
        mem_init_def fun_eq_iff)
  then show ?thesis
    by (simp only: run.simps) (simp add: one_page_env_def)
qed

lemma malloc_refuses_page:
  "mm_malloc one_page_env one_alloc_state 4000 =
     Some (Inr (None, one_alloc_state\<lparr>errno := ENOMEM\<rparr>))"
proof -
  have fl: "on_free_list one_alloc_state b \<longleftrightarrow> b = 0" for b
    by (rule on_free_list_self) (simp_all add: one_alloc_state_def mm_next_def)
  have u: "mm_units one_page_env 4000 = 127"
    by (simp add: mm_units_def one_page_env_def SIZE_LIMIT_def)
  have nofit: "\<forall>b. on_free_list one_alloc_state b \<longrightarrow>
        mm_size one_alloc_state b < mm_units one_page_env 4000"
    unfolding u by (simp add: fl mm_size_def one_alloc_state_def)
  have fail: "mem_sbrk one_page_env one_alloc_state
     (mm_bytes one_page_env (grow_units one_page_env (mm_units one_page_env 4000))) = None"
    unfolding u
    by (simp add: grow_units_def mm_bytes_def mem_sbrk_def one_page_env_def one_alloc_state_def
        SIZE_LIMIT_def)
  from malloc_refuses [OF valid_one_page_env run_one_page nofit fail] show ?thesis .
qed

text \<open>
  Claim C7. Whenever the segment cannot be grown to satisfy a request, \<open>mm_malloc\<close>
  should return null and set \<open>errno\<close> to \<open>ENOMEM\<close>. A request of \<open>2 ^ 64 - 1\<close>
  bytes is more than the segment can ever hold, and the provider refuses to grow the
  segment by that many bytes. After one allocation of one byte, the unit count of that
  request wraps to 2 in \<open>mm_units\<close>, the free block of 125 units is found large enough
  and is split, and \<open>mm_malloc\<close> returns a non-null pointer, to a block of 2 units that
  has no room for a payload, with \<open>errno\<close> as it was.
\<close>

theorem mm_malloc_huge_request:
  "run x86_64_env [Allocate 1] {} (mm_init empty_state) = Done {126} one_alloc_state \<and>
   maxheap x86_64_env < 2 ^ 64 - 1 \<and>
   mem_sbrk x86_64_env one_alloc_state (2 ^ 64 - 1) = None \<and>
   mm_units x86_64_env (2 ^ 64 - 1) = 2 \<and>
   mm_malloc x86_64_env one_alloc_state (2 ^ 64 - 1) =
     Some (Inr (Some 124, two_unit_state)) \<and>
   errno two_unit_state = errno one_alloc_state \<and>
   errno two_unit_state \<noteq> ENOMEM \<and>
   mm_size two_unit_state (mm_block 124) = 2 \<and>
   (mm_size two_unit_state (mm_block 124) - 2) * hsize x86_64_env = 0"
proof -
  have "mm_malloc x86_64_env one_alloc_state (2 ^ 64 - 1) =
      Some (Inr (Some 124, two_unit_state))"
    by (simp add: mm_defs x86_64_env_def one_alloc_state_def two_unit_state_def fun_eq_iff)
  moreover have "mem_sbrk x86_64_env one_alloc_state (2 ^ 64 - 1) = None"
    by (simp add: mem_sbrk_def x86_64_env_def one_alloc_state_def)
  moreover have "maxheap x86_64_env < 2 ^ 64 - 1"
    by (simp add: x86_64_env_def)
  moreover have "mm_units x86_64_env (2 ^ 64 - 1) = 2"
    by (simp add: mm_units_def x86_64_env_def SIZE_LIMIT_def)
  moreover have "errno two_unit_state = errno one_alloc_state"
    "errno two_unit_state \<noteq> ENOMEM"
    "mm_size two_unit_state (mm_block 124) = 2"
    by (simp_all add: two_unit_state_def one_alloc_state_def mm_size_def mm_block_def ENOMEM_def)
  ultimately show ?thesis using run_one_alloc by simp
qed

subsection \<open>Zeroed allocation\<close>

lemma covered_pos:
  "0 < covered e dst n u \<Longrightarrow> dst \<le> u \<and> u * hsize e < dst * hsize e + n"
  by (auto simp: covered_def split: if_splits)

lemma covered_none:
  "u < dst \<or> dst * hsize e + n \<le> u * hsize e \<Longrightarrow> covered e dst n u = 0"
  by (auto simp: covered_def)

lemma memset_inside:
  assumes "dst * hsize e + n \<le> brk st"
  shows "\<exists>st2. memset e st dst c n = Inr st2 \<and>
     brk st2 = brk st \<and> freep st2 = freep st \<and> errno st2 = errno st \<and>
     (\<forall>a. bytes st2 a = (if dst * hsize e \<le> a \<and> a < dst * hsize e + n then c else bytes st a)) \<and>
     (\<forall>u. covered e dst n u = 0 \<longrightarrow> s_ptr st2 u = s_ptr st u \<and> s_size st2 u = s_size st u)"
  using assms by (simp add: memset_def Let_def)

text \<open>
  Where the unit count of the request is right, \<open>mm_calloc\<close> does what \<open>mm_malloc\<close>
  does and zeroes the payload: in a memory that satisfies the invariant, for a product
  within the capacity of the segment, it returns null exactly if \<open>mm_malloc\<close> does, with
  the same state; otherwise it returns the pointer of \<open>mm_malloc\<close>, the bytes of the
  request are zero and no other byte changes, the header fields change in units of the
  payload only, and the invariant holds with the new pointer live.
\<close>

lemma mm_calloc_in_range:
  assumes ve: "valid_env e" and ok: "heap_ok e st L" and n: "count * sz \<le> maxheap e"
  shows "\<exists>r st1. mm_malloc e st (count * sz) = Some (Inr (r, st1)) \<and>
    (case r of
       None \<Rightarrow> mm_calloc e st count sz = Some (Inr (None, st1))
     | Some p \<Rightarrow>
        (\<exists>st2. mm_calloc e st count sz = Some (Inr (Some p, st2)) \<and>
           heap_ok e st2 (insert p L) \<and>
           brk st2 = brk st1 \<and> freep st2 = freep st1 \<and> errno st2 = errno st1 \<and>
           (\<forall>a. bytes st2 a =
                  (if p * hsize e \<le> a \<and> a < p * hsize e + count * sz then 0
                   else bytes st1 a)) \<and>
           (\<forall>u. u < p \<or> p * hsize e + count * sz \<le> u * hsize e \<longrightarrow>
                  s_ptr st2 u = s_ptr st1 u \<and> s_size st2 u = s_size st1 u)))"
proof -
  from ok obtain B Fs A where
    inv: "heap_inv e st B Fs A" and all: "set B = Fs \<union> A" and L: "L = mm_payload ` A"
    unfolding heap_ok_def by blast
  from ve have H: "0 < hsize e" and mh: "maxheap e < SIZE_LIMIT"
    by (auto simp: valid_env_def)
  from n mh have small: "count * sz < SIZE_LIMIT" by simp
  then have mo: "mul_of count sz = (False, count * sz)" by (simp add: mul_of_def)
  note ub = units_bounds [OF ve n]
  from malloc_inv [OF ve inv all n] obtain r st1 where
    m: "mm_malloc e st (count * sz) = Some (Inr (r, st1))"
    and post: "malloc_post e st Fs A (mm_units e (count * sz)) r st1"
    by blast
  show ?thesis
  proof (cases r)
    case None
    with m mo show ?thesis by (simp add: mm_calloc_def)
  next
    case (Some p)
    with post obtain b' B' Fs' where
      b: "p = b' + 1" "b' \<notin> A" "mm_units e (count * sz) \<le> s_size st1 b'"
      and inv1: "heap_inv e st1 B' Fs' (insert b' A)"
      and all1: "set B' = Fs' \<union> insert b' A"
      by (auto simp: malloc_post_def)
    note d1 = heap_invD [OF inv1]
    from d1(5) have bB: "b' \<in> set B'" by simp
    note bb = block_bound [OF ve inv1 bB]
    have "count * sz \<le> (s_size st1 b' - 2) * hsize e"
    proof -
      from b(3) have "mm_units e (count * sz) - 2 \<le> s_size st1 b' - 2" by simp
      then have "(mm_units e (count * sz) - 2) * hsize e \<le> (s_size st1 b' - 2) * hsize e"
        by (rule mult_le_mono1)
      with ub(3) show ?thesis by (rule le_trans)
    qed
    then have "p * hsize e + count * sz \<le> (p + (s_size st1 b' - 2)) * hsize e"
      by (simp add: algebra_simps)
    also have "p + (s_size st1 b' - 2) = b' + s_size st1 b' - 1"
      using bb(1) b(1) by simp
    finally have top: "p * hsize e + count * sz \<le> (b' + s_size st1 b' - 1) * hsize e" .
    from bb(2) have "b' + s_size st1 b' - 1 \<le> heap_units e st1" by simp
    then have "(b' + s_size st1 b' - 1) * hsize e \<le> heap_units e st1 * hsize e"
      by (rule mult_le_mono1)
    with top have "p * hsize e + count * sz \<le> heap_units e st1 * hsize e"
      by (rule le_trans)
    then have inseg: "p * hsize e + count * sz \<le> brk st1" by (simp only: d1(1))
    from memset_inside [OF inseg, of 0] obtain st2 where
      ms: "memset e st1 p 0 (count * sz) = Inr st2"
      and f: "brk st2 = brk st1" "freep st2 = freep st1" "errno st2 = errno st1"
      and by2: "\<forall>a. bytes st2 a =
                  (if p * hsize e \<le> a \<and> a < p * hsize e + count * sz then 0
                   else bytes st1 a)"
      and un: "\<And>u. covered e p (count * sz) u = 0 \<Longrightarrow>
                  s_ptr st2 u = s_ptr st1 u \<and> s_size st2 u = s_size st1 u"
      by blast
    have inv2: "heap_inv e st2 B' Fs' (insert b' A)"
    proof (rule heap_inv_payload [OF inv1 f(1,2)])
      fix u
      assume "s_ptr st2 u \<noteq> s_ptr st1 u \<or> s_size st2 u \<noteq> s_size st1 u"
      with un [of u] have "0 < covered e p (count * sz) u" by auto
      from covered_pos [OF this]
      have pu: "p \<le> u" and lt: "u * hsize e < p * hsize e + count * sz" by simp_all
      from lt top have "u * hsize e < (b' + s_size st1 b' - 1) * hsize e"
        by (rule less_le_trans)
      then have "u < b' + s_size st1 b' - 1" by simp
      with pu b(1) have "b' < u \<and> u + 1 < b' + s_size st1 b'" by simp
      then show "\<exists>a\<in>insert b' A. a < u \<and> u + 1 < a + s_size st1 a" by blast
    qed
    have "insert p L = mm_payload ` insert b' A"
      using b(1) L by (simp add: mm_payload_def)
    with inv2 all1 have ok2: "heap_ok e st2 (insert p L)" unfolding heap_ok_def by blast
    have out: "s_ptr st2 u = s_ptr st1 u \<and> s_size st2 u = s_size st1 u"
      if "u < p \<or> p * hsize e + count * sz \<le> u * hsize e" for u
      using un [OF covered_none [OF that]] .
    have "mm_calloc e st count sz = Some (Inr (Some p, st2))"
      using m mo Some ms by (simp add: mm_calloc_def)
    with m Some ok2 f by2 out show ?thesis by auto
  qed
qed

text \<open>
  Claim C9. When \<open>count * size\<close> does not overflow, \<open>mm_calloc\<close> should behave as
  \<open>mm_malloc\<close> for \<open>count * size\<close> bytes and hand out zeroed memory. For one object of
  \<open>2 ^ 64 - 1\<close> bytes the product does not overflow and \<open>mul_of\<close> lets the request
  pass. The unit count of the request wraps to 2 in \<open>mm_units\<close>: \<open>mm_malloc\<close>
  returns the payload pointer of a block of 2 units at the end of the first page, and
  \<open>memset\<close> is told to write \<open>2 ^ 64 - 1\<close> bytes from there, past the end of the
  segment. The call to \<open>mm_calloc\<close> does not return a pointer, where \<open>mm_malloc\<close>
  returns one.
\<close>

theorem mm_calloc_huge_faults:
  "mul_of 1 (2 ^ 64 - 1) = (False, 2 ^ 64 - 1) \<and>
   mm_malloc x86_64_env (mm_init empty_state) (2 ^ 64 - 1) =
     Some (Inr (Some 127, first_two_unit_state)) \<and>
   mm_size first_two_unit_state (mm_block 127) = 2 \<and>
   mem_heapsize first_two_unit_state < 127 * hsize x86_64_env + (2 ^ 64 - 1) \<and>
   mm_calloc x86_64_env (mm_init empty_state) 1 (2 ^ 64 - 1) =
     Some (Inl (OutOfSegment, first_two_unit_state))"
proof -
  have m: "mm_malloc x86_64_env (mm_init empty_state) (2 ^ 64 - 1) =
      Some (Inr (Some 127, first_two_unit_state))"
    by (simp add: mm_defs x86_64_env_def empty_state_def first_two_unit_state_def mm_init_def
        mem_init_def fun_eq_iff)
  have u: "mul_of 1 (2 ^ 64 - 1) = (False, 2 ^ 64 - 1)"
    by (simp add: mul_of_def SIZE_LIMIT_def)
  have h: "mem_heapsize first_two_unit_state < 127 * hsize x86_64_env + (2 ^ 64 - 1)"
    "mm_size first_two_unit_state (mm_block 127) = 2"
    by (simp_all add: mem_heapsize_def mm_size_def mm_block_def first_two_unit_state_def
        x86_64_env_def)
  have "memset x86_64_env first_two_unit_state 127 0 (2 ^ 64 - 1) =
      Inl (OutOfSegment, first_two_unit_state)"
    by (simp add: memset_def first_two_unit_state_def x86_64_env_def)
  with m u have "mm_calloc x86_64_env (mm_init empty_state) 1 (2 ^ 64 - 1) =
     Some (Inl (OutOfSegment, first_two_unit_state))"
    by (simp add: mm_calloc_def)
  with m u h show ?thesis by simp
qed

subsection \<open>Requests of zero bytes\<close>







subsection \<open>Taking a block whole or splitting it\<close>

lemma on_free_list_ring:
  assumes rg: "ring (s_ptr st) sz Fs" and f: "freep st = Some f" and fF: "f \<in> Fs"
  shows "on_free_list st b \<longleftrightarrow> b \<in> Fs"
proof
  assume "on_free_list st b"
  with f have p: "(f, b) \<in> {(x, y). mm_next st x = Some y}\<^sup>*"
    unfolding on_free_list_def by simp
  from p fF show "b \<in> Fs"
  proof (induction rule: rtrancl_induct)
    case base
    then show ?case by simp
  next
    case (step y z)
    then have "y \<in> Fs" "s_ptr st y = Some z" by (auto simp: mm_next_def)
    with ring_next [OF rg, of y] show ?case by auto
  qed
next
  assume b: "b \<in> Fs"
  have "nextrel (s_ptr st) Fs \<subseteq> {(x, y). mm_next st x = Some y}"
    by (auto simp: nextrel_def mm_next_def)
  from rtrancl_mono [OF this] ring_conn [OF rg fF b]
  have "(f, b) \<in> {(x, y). mm_next st x = Some y}\<^sup>*" by blast
  with f show "on_free_list st b" unfolding on_free_list_def by blast
qed

lemma found_whole_state:
  assumes w: "s_size st c = nunits \<or> s_size st c = nunits + 1"
    and lim: "nunits + 1 < SIZE_LIMIT"
    and nx: "s_ptr st c = Some nx" and pv: "s_ptr st (c + s_size st c - 1) = Some pv"
    and self: "nx = c \<Longrightarrow> pv = c"
  shows "\<exists>st'. mm_malloc_found st c nunits = Inr (Some (c + 1), st') \<and>
     s_size st' = s_size st \<and>
     s_ptr st' = (s_ptr st)(pv := Some nx, nx + s_size st nx - 1 := Some pv, c := None,
                            c + s_size st c - 1 := None) \<and>
     freep st' = (if nx = c then None else if freep st = Some c then Some pv else freep st) \<and>
     brk st' = brk st \<and> errno st' = errno st \<and> bytes st' = bytes st"
proof -
  define st1 where "st1 = (if freep st = Some c then st\<lparr>freep := mm_prev st c\<rparr> else st)"
  have s1: "s_size st1 = s_size st" "s_ptr st1 = s_ptr st" "brk st1 = brk st"
    "errno st1 = errno st" "bytes st1 = bytes st"
    by (simp_all add: st1_def)
  have f1: "freep st1 = (if freep st = Some c then Some pv else freep st)"
    using pv by (simp add: st1_def mm_prev_def mm_footer_def)
  have found: "mm_malloc_found st c nunits =
      (case mm_unlink st1 c of Inl f \<Rightarrow> Inl f | Inr st2 \<Rightarrow> Inr (Some (mm_payload c), st2))"
    using w lim by (auto simp: mm_malloc_found_def Let_def st1_def)
  show ?thesis
  proof (cases "nx = c")
    case True
    with self have pc: "pv = c" by simp
    define st2 where "st2 = (mm_setPrev (mm_setNext st1 c None) c None)\<lparr>freep := None\<rparr>"
    have u: "mm_unlink st1 c = Inr st2"
      using nx True by (simp add: mm_unlink_def mm_next_def s1 st2_def)
    have "s_ptr st2 = (s_ptr st)(pv := Some nx, nx + s_size st nx - 1 := Some pv, c := None,
                            c + s_size st c - 1 := None)"
      unfolding True pc by (auto simp: st2_def mm_footer_def s1 fun_eq_iff)
    moreover have "s_size st2 = s_size st" "freep st2 = None" "brk st2 = brk st"
      "errno st2 = errno st" "bytes st2 = bytes st"
      by (simp_all add: st2_def s1)
    ultimately show ?thesis using found u True by (simp add: mm_payload_def)
  next
    case False
    define st2 where "st2 = mm_setPrev (mm_setNext (mm_setPrev (mm_setNext st1 pv (Some nx))
        nx (Some pv)) c None) c None"
    have u: "mm_unlink st1 c = Inr st2"
      using nx pv False
      by (simp add: mm_unlink_def mm_next_def mm_prev_def mm_footer_def s1 st2_def Let_def)
    have "s_ptr st2 = (s_ptr st)(pv := Some nx, nx + s_size st nx - 1 := Some pv, c := None,
                            c + s_size st c - 1 := None)"
      by (simp add: st2_def mm_footer_def s1)
    moreover have "s_size st2 = s_size st" "freep st2 = freep st1" "brk st2 = brk st"
      "errno st2 = errno st" "bytes st2 = bytes st"
      by (simp_all add: st2_def s1)
    ultimately show ?thesis using found u False f1 by (simp add: mm_payload_def)
  qed
qed

lemma found_split_free_list:
  assumes inv: "heap_inv e st B Fs A" and p: "p \<in> Fs"
    and sz: "s_size st p = m + nunits" and m2: "2 \<le> m" and n0: "0 < nunits"
    and sz': "s_size st' = (s_size st)(p := m, p + m - 1 := m, p + m := nunits,
                   p + m + nunits - 1 := nunits)"
    and pt': "s_ptr st' = (s_ptr st)(p + m - 1 := mm_prev st p, p := mm_next st p,
                   p + m := None, p + m + nunits - 1 := None)"
    and fp': "freep st' = mm_prev st p"
  shows "on_free_list st' b \<longleftrightarrow> b \<in> Fs" and "p + m \<notin> set B"
proof -
  note d = heap_invD [OF inv]
  from p d(4) have pB: "p \<in> set B" by auto
  from ring_prev [OF d(8) p] obtain pv where
    pv: "pv \<in> Fs" "s_ptr st (p + s_size st p - 1) = Some pv" by auto
  have ne: "p \<noteq> p + m - 1" "p \<noteq> p + m" "p \<noteq> p + m + nunits - 1" "p + m - 1 \<noteq> p + m"
    "p + m - 1 \<noteq> p + m + nunits - 1" "p + m + nunits - 1 = p + s_size st p - 1"
    using m2 n0 sz by linarith+
  show inside: "p + m \<notin> set B"
  proof
    assume a: "p + m \<in> set B"
    from m2 have "p + m \<noteq> p" by simp
    from chain_disj [OF d(3) a pB this] chain_mem(2) [OF d(3) a] sz n0 m2
    show False by linarith
  qed
  have keep: "s_size st' b = s_size st b \<and> s_ptr st' b = s_ptr st b \<and>
              s_ptr st' (b + s_size st b - 1) = s_ptr st (b + s_size st b - 1)"
    if "b \<in> set B" "b \<noteq> p" for b
  proof -
    from chain_disj [OF d(3) that(1) pB that(2)] chain_mem(2) [OF d(3) that(1)] sz m2 n0
    have "b \<noteq> p" "b \<noteq> p + m - 1" "b \<noteq> p + m" "b \<noteq> p + m + nunits - 1"
      "b + s_size st b - 1 \<noteq> p" "b + s_size st b - 1 \<noteq> p + m - 1"
      "b + s_size st b - 1 \<noteq> p + m" "b + s_size st b - 1 \<noteq> p + m + nunits - 1"
      by linarith+
    then show ?thesis by (simp add: sz' pt')
  qed
  have sp: "s_size st' p = m" using ne by (simp add: sz')
  have rg: "ring (s_ptr st') (s_size st') Fs"
  proof (rule ring_cong [OF d(8)])
    show "s_ptr st' b = s_ptr st b" if "b \<in> Fs" for b
    proof (cases "b = p")
      case True
      then show ?thesis using ne by (simp add: pt' mm_next_def)
    next
      case False
      with that d(4) keep [of b] show ?thesis by auto
    qed
    show "s_ptr st' (b + s_size st' b - 1) = s_ptr st (b + s_size st b - 1)" if "b \<in> Fs" for b
    proof (cases "b = p")
      case True
      then show ?thesis using ne by (simp add: sp pt' mm_prev_def mm_footer_def)
    next
      case False
      with that d(4) keep [of b] show ?thesis by auto
    qed
  qed
  have "freep st' = Some pv" using pv(2) by (simp add: fp' mm_prev_def mm_footer_def)
  from on_free_list_ring [OF rg this pv(1)] show "on_free_list st' b \<longleftrightarrow> b \<in> Fs" .
qed


text \<open>
  Claim C3. Let the memory satisfy the invariant of the allocator, as it does between two
  calls and during the traversal, and let the traversal of \<open>mm_malloc\<close> be at a block
  \<open>c\<close> of the free list with at least \<open>nunits\<close> units; \<open>nx\<close> and \<open>pv\<close> are its
  neighbours on the list. If \<open>c\<close> has \<open>nunits\<close> or \<open>nunits + 1\<close> units it is unlinked and
  returned whole: no size changes, \<open>pv\<close> and \<open>nx\<close> are linked to each other, both links
  of \<open>c\<close> are null, \<open>freep\<close> moves off \<open>c\<close> (and is null if \<open>c\<close> was the only free
  block), nothing else changes, and the free list is the one before without \<open>c\<close>.
  Otherwise \<open>c\<close> keeps its header, its size becomes the old size minus \<open>nunits\<close> in
  header and footer, and it keeps its next and previous links; the block returned starts
  at \<open>c\<close> plus the new size of \<open>c\<close>, has \<open>nunits\<close> units in header and footer, ends where
  \<open>c\<close> ended and has null links; \<open>freep\<close> is \<open>pv\<close>, nothing else changes, and the free
  list holds the same blocks as before, not the block returned.
\<close>

theorem first_fit_take_or_split:
  assumes ve: "valid_env e" and ok: "heap_ok e st L"
    and c: "on_free_list st c" and fit: "nunits \<le> mm_size st c" and n: "0 < nunits"
  shows "\<exists>nx pv. mm_next st c = Some nx \<and> mm_prev st c = Some pv \<and>
     (mm_size st c = nunits \<or> mm_size st c = nunits + 1 \<longrightarrow>
        (\<exists>st'. malloc_loop e st c nunits = Some (Inr (Some (mm_payload c), st')) \<and>
               s_size st' = s_size st \<and>
               s_ptr st' = (s_ptr st)(pv := Some nx, mm_footer st nx := Some pv, c := None,
                                      mm_footer st c := None) \<and>
               freep st' = (if nx = c then None
                            else if freep st = Some c then Some pv else freep st) \<and>
               brk st' = brk st \<and> errno st' = errno st \<and> bytes st' = bytes st \<and>
               mm_next st' c = None \<and> mm_prev st' c = None \<and>
               free_list_blocks st' = free_list_blocks st - {c})) \<and>
     (nunits + 1 < mm_size st c \<longrightarrow>
        (\<exists>st'. malloc_loop e st c nunits =
                 Some (Inr (Some (mm_payload (c + (mm_size st c - nunits))), st')) \<and>
               mm_size st' c = mm_size st c - nunits \<and>
               mm_size st' (mm_footer st' c) = mm_size st c - nunits \<and>
               mm_next st' c = Some nx \<and> mm_prev st' c = Some pv \<and>
               mm_size st' (c + (mm_size st c - nunits)) = nunits \<and>
               mm_footer st' (c + (mm_size st c - nunits)) = mm_footer st c \<and>
               mm_size st' (mm_footer st c) = nunits \<and>
               mm_next st' (c + (mm_size st c - nunits)) = None \<and>
               mm_prev st' (c + (mm_size st c - nunits)) = None \<and>
               s_size st' = (s_size st)
                 (c := mm_size st c - nunits,
                  c + (mm_size st c - nunits) - 1 := mm_size st c - nunits,
                  c + (mm_size st c - nunits) := nunits, mm_footer st c := nunits) \<and>
               s_ptr st' = (s_ptr st)
                 (c + (mm_size st c - nunits) - 1 := Some pv,
                  c + (mm_size st c - nunits) := None, mm_footer st c := None) \<and>
               freep st' = Some pv \<and>
               brk st' = brk st \<and> errno st' = errno st \<and> bytes st' = bytes st \<and>
               free_list_blocks st' = free_list_blocks st \<and>
               c + (mm_size st c - nunits) \<notin> free_list_blocks st'))"
proof -
  from ok obtain B Fs A where inv: "heap_inv e st B Fs A" and all: "set B = Fs \<union> A"
    unfolding heap_ok_def by blast
  note d = heap_invD [OF inv]
  from c on_free_list_iff [OF inv] have cF: "c \<in> Fs" by simp
  with d(4) have cB: "c \<in> set B" by auto
  note cb = block_bound [OF ve inv cB]
  from cb(2) heap_units_bound3 [OF ve inv] fit have lim: "nunits + 1 < SIZE_LIMIT"
    unfolding mm_size_def by linarith
  from ring_next [OF d(8) cF] obtain nx where
    nx: "nx \<in> Fs" "s_ptr st c = Some nx" by auto
  from ring_prev [OF d(8) cF] obtain pv where
    pv: "pv \<in> Fs" "s_ptr st (c + s_size st c - 1) = Some pv" by auto
  have self: "pv = c" if "nx = c"
  proof -
    from nx(2) that have "s_ptr st c = Some c" by simp
    from ring_self_loop [OF d(8) cF this] pv(1) show ?thesis by simp
  qed
  have fl: "free_list_blocks st = Fs"
    using on_free_list_iff [OF inv] by (auto simp: free_list_blocks_def)
  have lp: "malloc_loop e st c nunits = Some (mm_malloc_found st c nunits)"
    using fit by (subst malloc_loop.simps) (simp add: mm_size_def)
  have whole: "\<exists>st'. malloc_loop e st c nunits = Some (Inr (Some (mm_payload c), st')) \<and>
               s_size st' = s_size st \<and>
               s_ptr st' = (s_ptr st)(pv := Some nx, mm_footer st nx := Some pv, c := None,
                                      mm_footer st c := None) \<and>
               freep st' = (if nx = c then None
                            else if freep st = Some c then Some pv else freep st) \<and>
               brk st' = brk st \<and> errno st' = errno st \<and> bytes st' = bytes st \<and>
               mm_next st' c = None \<and> mm_prev st' c = None \<and>
               free_list_blocks st' = free_list_blocks st - {c}"
    if "mm_size st c = nunits \<or> mm_size st c = nunits + 1"
  proof -
    from that have w: "s_size st c = nunits \<or> s_size st c = nunits + 1"
      by (simp add: mm_size_def)
    from found_whole_state [OF w lim nx(2) pv(2) self] obtain st' where
      res: "mm_malloc_found st c nunits = Inr (Some (c + 1), st')"
      and f: "s_size st' = s_size st"
        "s_ptr st' = (s_ptr st)(pv := Some nx, nx + s_size st nx - 1 := Some pv, c := None,
                            c + s_size st c - 1 := None)"
        "freep st' = (if nx = c then None else if freep st = Some c then Some pv else freep st)"
        "brk st' = brk st" "errno st' = errno st" "bytes st' = bytes st"
      by blast
    from unlink_inv [OF inv cF] obtain st2 where
      u: "mm_unlink (if freep st = Some c then st\<lparr>freep := mm_prev st c\<rparr> else st) c = Inr st2"
      and inv2: "heap_inv e st2 B (Fs - {c}) A"
      by blast
    have "mm_malloc_found st c nunits = Inr (Some (c + 1), st2)"
      using w lim u by (auto simp: mm_malloc_found_def Let_def mm_payload_def)
    with res have "st2 = st'" by simp
    with inv2 have inv': "heap_inv e st' B (Fs - {c}) A" by simp
    have "free_list_blocks st' = free_list_blocks st - {c}"
      unfolding fl using on_free_list_iff [OF inv'] by (auto simp: free_list_blocks_def)
    moreover have "mm_next st' c = None" "mm_prev st' c = None"
      by (simp_all add: mm_next_def mm_prev_def mm_footer_def f)
    ultimately show ?thesis
      using lp res f by (simp add: mm_payload_def mm_footer_def)
  qed
  have split: "\<exists>st'. malloc_loop e st c nunits =
                 Some (Inr (Some (mm_payload (c + (mm_size st c - nunits))), st')) \<and>
               mm_size st' c = mm_size st c - nunits \<and>
               mm_size st' (mm_footer st' c) = mm_size st c - nunits \<and>
               mm_next st' c = Some nx \<and> mm_prev st' c = Some pv \<and>
               mm_size st' (c + (mm_size st c - nunits)) = nunits \<and>
               mm_footer st' (c + (mm_size st c - nunits)) = mm_footer st c \<and>
               mm_size st' (mm_footer st c) = nunits \<and>
               mm_next st' (c + (mm_size st c - nunits)) = None \<and>
               mm_prev st' (c + (mm_size st c - nunits)) = None \<and>
               s_size st' = (s_size st)
                 (c := mm_size st c - nunits,
                  c + (mm_size st c - nunits) - 1 := mm_size st c - nunits,
                  c + (mm_size st c - nunits) := nunits, mm_footer st c := nunits) \<and>
               s_ptr st' = (s_ptr st)
                 (c + (mm_size st c - nunits) - 1 := Some pv,
                  c + (mm_size st c - nunits) := None, mm_footer st c := None) \<and>
               freep st' = Some pv \<and>
               brk st' = brk st \<and> errno st' = errno st \<and> bytes st' = bytes st \<and>
               free_list_blocks st' = free_list_blocks st \<and>
               c + (mm_size st c - nunits) \<notin> free_list_blocks st'"
    if big: "nunits + 1 < mm_size st c"
  proof -
    define m where "m = s_size st c - nunits"
    from big have sz: "s_size st c = m + nunits" and m2: "2 \<le> m"
      by (auto simp: m_def mm_size_def)
    from found_split_state [OF sz m2 n lim] obtain st' where
      res: "mm_malloc_found st c nunits = Inr (Some (c + m + 1), st')"
      and sz': "s_size st' = (s_size st)(c := m, c + m - 1 := m, c + m := nunits,
                   c + m + nunits - 1 := nunits)"
      and pt': "s_ptr st' = (s_ptr st)(c + m - 1 := mm_prev st c, c := mm_next st c,
                   c + m := None, c + m + nunits - 1 := None)"
      and fp': "freep st' = mm_prev st c"
      and rest: "brk st' = brk st" "errno st' = errno st" "bytes st' = bytes st"
      by blast
    note fr = found_split_free_list [OF inv cF sz m2 n sz' pt' fp']
    have ne: "c \<noteq> c + m - 1" "c \<noteq> c + m" "c \<noteq> c + m + nunits - 1" "c + m - 1 \<noteq> c + m"
      "c + m - 1 \<noteq> c + m + nunits - 1"
      using m2 n by linarith+
    have ft: "c + m + nunits - 1 = mm_footer st c"
      using sz by (simp add: mm_footer_def add.assoc)
    have pvc: "mm_prev st c = Some pv" using pv(2) by (simp add: mm_prev_def mm_footer_def)
    have nxc: "mm_next st c = Some nx" using nx(2) by (simp add: mm_next_def)
    have a1: "s_size st' c = m" using ne by (simp add: sz')
    have a2: "s_size st' (c + m - 1) = m" using ne by (simp add: sz')
    have a3: "s_size st' (c + m) = nunits" by (simp add: sz')
    have a4: "s_size st' (c + m + nunits - 1) = nunits" by (simp add: sz')
    have b1: "s_ptr st' c = Some nx" using ne nx(2) by (simp add: pt' mm_next_def)
    have b2: "s_ptr st' (c + m - 1) = Some pv" using ne pvc by (simp add: pt')
    have b3: "s_ptr st' (c + m) = None" by (simp add: pt')
    have b4: "s_ptr st' (c + m + nunits - 1) = None" by (simp add: pt')
    have pe: "s_ptr st' = (s_ptr st)(c + m - 1 := Some pv, c + m := None,
                 c + m + nunits - 1 := None)"
      unfolding pt' pvc nxc using nx(2) ne by (auto simp: fun_eq_iff)
    have fps: "freep st' = Some pv" using fp' pvc by simp
    have fl': "free_list_blocks st' = free_list_blocks st"
      unfolding fl using fr(1) by (auto simp: free_list_blocks_def)
    have nf: "c + m \<notin> free_list_blocks st'"
      unfolding fl' fl using fr(2) d(4) by auto
    have "malloc_loop e st c nunits = Some (Inr (Some (mm_payload (c + m)), st'))"
      using lp res by (simp add: mm_payload_def)
    with a1 a2 a3 a4 b1 b2 b3 b4 sz' pe fps rest fl' nf
    show ?thesis
      unfolding mm_size_def m_def [symmetric] ft [symmetric]
      by (intro exI [of _ st']) (simp add: mm_footer_def mm_next_def mm_prev_def)
  qed
  have "mm_next st c = Some nx" "mm_prev st c = Some pv"
    using nx(2) pv(2) by (simp_all add: mm_next_def mm_prev_def mm_footer_def)
  with whole split show ?thesis by blast
qed


lemma run_two_free:
  "run x86_64_env [Allocate 1, Allocate 1, Release (Some 126)] {} (mm_init empty_state) =
     Done {123} two_free_state"
  by (simp add: mm_defs x86_64_env_def empty_state_def two_free_state_def mm_init_def
      mem_init_def fun_eq_iff insert_Diff_if)

theorem first_fit_take_or_split_witness:
  "valid_env x86_64_env \<and> heap_ok x86_64_env two_free_state {123} \<and>
   on_free_list two_free_state 125 \<and> 2 \<le> mm_size two_free_state 125 \<and> (0::nat) < 2 \<and>
   mm_next two_free_state 125 = Some 0 \<and> mm_prev two_free_state 125 = Some 0 \<and>
   mm_size two_free_state 125 = 2 + 1 \<and>
   malloc_loop x86_64_env two_free_state 125 2 =
     Some (Inr (Some (mm_payload 125), near_fit_state)) \<and>
   free_list_blocks near_fit_state = free_list_blocks two_free_state - {125} \<and>
   on_free_list two_free_state 0 \<and> 3 \<le> mm_size two_free_state 0 \<and> (0::nat) < 3 \<and>
   3 + 1 < mm_size two_free_state 0 \<and>
   mm_next two_free_state 0 = Some 125 \<and> mm_prev two_free_state 0 = Some 125 \<and>
   (\<exists>st'. malloc_loop x86_64_env two_free_state 0 3 = Some (Inr (Some (mm_payload 119), st')) \<and>
          mm_size st' 0 = 119 \<and> mm_size st' (mm_footer st' 0) = 119 \<and>
          mm_next st' 0 = Some 125 \<and> mm_prev st' 0 = Some 125 \<and>
          mm_size st' 119 = 3 \<and> mm_footer st' 119 = 121 \<and> mm_size st' 121 = 3 \<and>
          mm_next st' 119 = None \<and> mm_prev st' 119 = None \<and>
          freep st' = Some 125 \<and>
          free_list_blocks st' = free_list_blocks two_free_state \<and>
          119 \<notin> free_list_blocks st')"
proof -
  note ve = valid_x86_64_env
  from run_ok [OF ve heap_ok_init, of "[Allocate 1, Allocate 1, Release (Some 126)]" empty_state]
    run_two_free
  have ok: "heap_ok x86_64_env two_free_state {123}" by simp
  have f0: "on_free_list two_free_state 0"
    unfolding on_free_list_def by (auto simp: two_free_state_def)
  have "(0, 125) \<in> {(x, y). mm_next two_free_state x = Some y}"
    by (simp add: mm_next_def two_free_state_def)
  then have "(0, 125) \<in> {(x, y). mm_next two_free_state x = Some y}\<^sup>*"
    by (rule r_into_rtrancl)
  then have f1: "on_free_list two_free_state 125"
    unfolding on_free_list_def by (auto simp: two_free_state_def)
  have s1: "mm_size two_free_state 125 = 3" "mm_next two_free_state 125 = Some 0"
    "mm_prev two_free_state 125 = Some 0"
    by (simp_all add: mm_size_def mm_next_def mm_prev_def mm_footer_def two_free_state_def)
  have s0: "mm_size two_free_state 0 = 122" "mm_next two_free_state 0 = Some 125"
    "mm_prev two_free_state 0 = Some 125" "mm_footer two_free_state 0 = 121"
    by (simp_all add: mm_size_def mm_next_def mm_prev_def mm_footer_def two_free_state_def)
  have fit1: "2 \<le> mm_size two_free_state 125" and fit0: "3 \<le> mm_size two_free_state 0"
    by (simp_all add: s1 s0)
  have pos: "(0::nat) < 2" "(0::nat) < 3" by simp_all
  have ev: "malloc_loop x86_64_env two_free_state 125 2 =
      Some (Inr (Some (mm_payload 125), near_fit_state))"
    by (simp add: mm_defs two_free_state_def near_fit_state_def fun_eq_iff)
  from first_fit_take_or_split [OF ve ok f1 fit1 pos(1)]
  have "\<exists>st'. malloc_loop x86_64_env two_free_state 125 2 =
            Some (Inr (Some (mm_payload 125), st')) \<and>
          free_list_blocks st' = free_list_blocks two_free_state - {125}"
    unfolding s1 by auto
  with ev have w: "free_list_blocks near_fit_state = free_list_blocks two_free_state - {125}"
    by auto
  from first_fit_take_or_split [OF ve ok f0 fit0 pos(2)]
  have x: "\<exists>st'. malloc_loop x86_64_env two_free_state 0 3 =
            Some (Inr (Some (mm_payload 119), st')) \<and>
          mm_size st' 0 = 119 \<and> mm_size st' (mm_footer st' 0) = 119 \<and>
          mm_next st' 0 = Some 125 \<and> mm_prev st' 0 = Some 125 \<and>
          mm_size st' 119 = 3 \<and> mm_footer st' 119 = 121 \<and> mm_size st' 121 = 3 \<and>
          mm_next st' 119 = None \<and> mm_prev st' 119 = None \<and>
          freep st' = Some 125 \<and>
          free_list_blocks st' = free_list_blocks two_free_state \<and>
          119 \<notin> free_list_blocks st'"
    unfolding s0 by simp blast
  from ve ok f1 f0 s1 s0 ev w x show ?thesis by simp
qed

end
